theory Spec2Isabelle
  imports Main "HOL-Library.AList" "HOL-Library.Multiset"
begin

section \<open>Common conventions\<close>

text \<open>
  The two class templates of \<^verbatim>\<open>src/base\<close> are embedded here:
  \<^verbatim>\<open>circular_queue<T, BufSize>\<close> (\<^verbatim>\<open>circular_queue.h\<close>) and
  \<^verbatim>\<open>LRU_cache<Key, Value>\<close> (\<^verbatim>\<open>lru_cache.h\<close>).

  \<^item> \<^verbatim>\<open>size_t\<close> values are natural numbers; every addition, subtraction and
    multiplication the source performs on them is reduced modulo \<open>2 ^ 64\<close> (an LP64
    target), so that a wrap-around is a value of the model.
  \<^item> \<^verbatim>\<open>assert\<close> is taken as compiled in (the unit tests rely on it through
    \<^verbatim>\<open>EXPECT_DEATH\<close>): a failed assertion is the result \<open>Inl Assertion_failed\<close>.
  \<^item> What C++ leaves undefined (a remainder by zero, an array index out of range, a
    dereference of a pointer that owns nothing, the decrement of \<^verbatim>\<open>end()\<close> of an
    empty list, a list iterator used on a list it does not belong to) is the result
    \<open>Inl Undefined_behaviour\<close>.
  \<^item> The mutex only serialises the member functions; a member function is modelled as
    one atomic step.
\<close>

datatype error = Assertion_failed | Undefined_behaviour

definition and_then :: "error + 'a \<Rightarrow> ('a \<Rightarrow> error + 'b) \<Rightarrow> error + 'b" where
  "and_then m f = (case m of Inl e \<Rightarrow> Inl e | Inr x \<Rightarrow> f x)"

definition SIZE_MOD :: nat where
  "SIZE_MOD = 2 ^ 64"

section \<open>Reference-counted buffers\<close>

text \<open>
  \<^verbatim>\<open>std::shared_ptr<std::array<T, BufSize>>\<close>: the arrays live in a store, a
  \<^verbatim>\<open>shared_ptr\<close> is the address of one. A cell of the store is the array together with
  its use count; \<open>None\<close> is an address whose array has been destroyed. Addresses are
  handed out in increasing order and never reused.
\<close>

type_synonym addr = nat
type_synonym 'a buffer_type = "'a list"
type_synonym 'a heap = "('a buffer_type \<times> nat) option list"

definition cell :: "addr \<Rightarrow> 'a heap \<Rightarrow> ('a buffer_type \<times> nat) option" where
  "cell a h = (if a < length h then h ! a else None)"

text \<open>\<^verbatim>\<open>shared_ptr(new buffer_type(xs))\<close>: a fresh array owned by one pointer.\<close>

definition heap_new :: "'a buffer_type \<Rightarrow> 'a heap \<Rightarrow> addr \<times> 'a heap" where
  "heap_new xs h = (length h, h @ [Some (xs, 1)])"

text \<open>Copying a \<^verbatim>\<open>shared_ptr\<close>: one more owner.\<close>

definition heap_acquire :: "addr \<Rightarrow> 'a heap \<Rightarrow> 'a heap" where
  "heap_acquire a h =
     (case cell a h of None \<Rightarrow> h | Some (xs, n) \<Rightarrow> h[a := Some (xs, n + 1)])"

text \<open>Destroying or resetting a \<^verbatim>\<open>shared_ptr\<close>: the last owner destroys the array.\<close>

definition heap_release :: "addr \<Rightarrow> 'a heap \<Rightarrow> 'a heap" where
  "heap_release a h =
     (case cell a h of None \<Rightarrow> h
      | Some (xs, n) \<Rightarrow> if n \<le> 1 then h[a := None] else h[a := Some (xs, n - 1)])"

text \<open>\<^verbatim>\<open>m_buffer.unique()\<close>, that is \<^verbatim>\<open>use_count() == 1\<close>.\<close>

definition unique :: "addr \<Rightarrow> 'a heap \<Rightarrow> bool" where
  "unique a h = (case cell a h of None \<Rightarrow> False | Some (xs, n) \<Rightarrow> n = 1)"

text \<open>\<^verbatim>\<open>*buffer\<close>\<close>

definition deref :: "addr \<Rightarrow> 'a heap \<Rightarrow> error + 'a buffer_type" where
  "deref a h = (case cell a h of None \<Rightarrow> Inl Undefined_behaviour | Some (xs, n) \<Rightarrow> Inr xs)"

text \<open>\<^verbatim>\<open>(*buffer)[i] = v\<close>\<close>

definition store_at :: "addr \<Rightarrow> nat \<Rightarrow> 'a \<Rightarrow> 'a heap \<Rightarrow> error + 'a heap" where
  "store_at a i v h =
     (case cell a h of None \<Rightarrow> Inl Undefined_behaviour
      | Some (xs, n) \<Rightarrow>
          if i < length xs then Inr (h[a := Some (xs[i := v], n)])
          else Inl Undefined_behaviour)"

section \<open>The ring buffer: \<^verbatim>\<open>circular_queue\<close>\<close>

record circular_queue =
  m_buffer :: addr
  m_capacity :: nat
  m_head :: nat
  m_tail :: nat
  m_isEmpty :: bool

text \<open>\<^verbatim>\<open>_index_add\<close>: \<^verbatim>\<open>(index + n) % m_capacity\<close>\<close>

definition index_add :: "circular_queue \<Rightarrow> nat \<Rightarrow> nat \<Rightarrow> error + nat" where
  "index_add q index n =
     (if m_capacity q = 0 then Inl Undefined_behaviour
      else Inr (((index + n) mod SIZE_MOD) mod m_capacity q))"

text \<open>\<^verbatim>\<open>_at\<close>: \<^verbatim>\<open>(*buffer)[n]\<close>\<close>

definition at_buffer :: "nat \<Rightarrow> addr \<Rightarrow> 'a heap \<Rightarrow> error + 'a" where
  "at_buffer n buffer h =
     and_then (deref buffer h)
       (\<lambda>xs. if n < length xs then Inr (xs ! n) else Inl Undefined_behaviour)"

text \<open>
  \<^verbatim>\<open>_get_buffer\<close>: the three out-parameters and the returned copy of the pointer;
  the copy is one more owner of the array.
\<close>

definition get_buffer ::
  "circular_queue \<Rightarrow> 'a heap \<Rightarrow> (addr \<times> nat \<times> nat \<times> bool) \<times> 'a heap" where
  "get_buffer q h =
     ((m_buffer q, m_head q, m_tail q, m_isEmpty q), heap_acquire (m_buffer q) h)"

text \<open>\<^verbatim>\<open>_get_size\<close>, with the unsigned arithmetic written out.\<close>

definition get_size :: "circular_queue \<Rightarrow> nat \<Rightarrow> nat \<Rightarrow> bool \<Rightarrow> nat" where
  "get_size q head tail isEmpty =
     (if isEmpty then 0
      else if tail \<ge> head then (tail - head + 1) mod SIZE_MOD
      else (m_capacity q + SIZE_MOD - (head - tail - 1) mod SIZE_MOD) mod SIZE_MOD)"

text \<open>
  The const member functions. Each takes its snapshot with \<^verbatim>\<open>_get_buffer\<close> and reads
  the array through it; the local pointer is destroyed on return, which undoes the
  acquisition, so only the returned value is kept.
\<close>

definition empty_cq :: "circular_queue \<Rightarrow> bool" where
  "empty_cq q = m_isEmpty q"

definition front :: "circular_queue \<Rightarrow> 'a heap \<Rightarrow> error + 'a" where
  "front q h =
     (case get_buffer q h of
        ((buffer, head, tail, isEmpty), h1) \<Rightarrow>
          if isEmpty then Inl Assertion_failed else at_buffer head buffer h1)"

definition back_cq :: "circular_queue \<Rightarrow> 'a heap \<Rightarrow> error + 'a" where
  "back_cq q h =
     (case get_buffer q h of
        ((buffer, head, tail, isEmpty), h1) \<Rightarrow>
          if isEmpty then Inl Assertion_failed else at_buffer (m_tail q) buffer h1)"

definition size_cq :: "circular_queue \<Rightarrow> 'a heap \<Rightarrow> nat" where
  "size_cq q h =
     (case get_buffer q h of
        ((buffer, head, tail, isEmpty), h1) \<Rightarrow> get_size q head tail isEmpty)"

definition capacity :: "circular_queue \<Rightarrow> nat" where
  "capacity q = m_capacity q"

text \<open>\<^verbatim>\<open>operator[]\<close>\<close>

definition subscript :: "circular_queue \<Rightarrow> 'a heap \<Rightarrow> nat \<Rightarrow> error + 'a" where
  "subscript q h n =
     (case get_buffer q h of
        ((buffer, head, tail, isEmpty), h1) \<Rightarrow>
          if \<not> n < get_size q head tail isEmpty then Inl Assertion_failed
          else and_then (index_add q head n) (\<lambda>i. at_buffer i buffer h1))"

text \<open>
  The default constructor. \<^verbatim>\<open>new buffer_type\<close> default-initialises the array: the
  elements are whatever \<open>T\<close>'s default initialisation leaves there, given here by
  \<open>init\<close>, slot by slot.
\<close>

definition circular_queue_ctor ::
  "nat \<Rightarrow> (nat \<Rightarrow> 'a) \<Rightarrow> 'a heap \<Rightarrow> circular_queue \<times> 'a heap" where
  "circular_queue_ctor BufSize init h =
     (case heap_new (map init [0..<BufSize]) h of
        (a, h1) \<Rightarrow>
          (\<lparr>m_buffer = a, m_capacity = BufSize, m_head = 0, m_tail = 0, m_isEmpty = True\<rparr>,
           h1))"

text \<open>
  The copy constructor: snapshot of \<open>from\<close>, a new array copied from the snapshot's,
  the indices of the snapshot; the local pointer \<open>buffer\<close> is destroyed on return.
\<close>

definition circular_queue_copy ::
  "circular_queue \<Rightarrow> 'a heap \<Rightarrow> error + circular_queue \<times> 'a heap" where
  "circular_queue_copy from h =
     (case get_buffer from h of
        ((buffer, head, tail, isEmpty), h1) \<Rightarrow>
          and_then (deref buffer h1)
            (\<lambda>xs. case heap_new xs h1 of
               (a, h2) \<Rightarrow>
                 Inr (\<lparr>m_buffer = a, m_capacity = m_capacity from, m_head = head,
                        m_tail = tail, m_isEmpty = isEmpty\<rparr>,
                      heap_release buffer h2)))"

text \<open>
  \<^verbatim>\<open>operator=\<close>: as the copy constructor, but \<^verbatim>\<open>m_buffer.reset\<close> first gives up the
  array that \<open>this\<close> owned.
\<close>

definition assign ::
  "circular_queue \<Rightarrow> circular_queue \<Rightarrow> 'a heap \<Rightarrow> error + circular_queue \<times> 'a heap" where
  "assign this from h =
     (case get_buffer from h of
        ((buffer, head, tail, isEmpty), h1) \<Rightarrow>
          and_then (deref buffer h1)
            (\<lambda>xs. case heap_new xs h1 of
               (a, h2) \<Rightarrow>
                 Inr (this\<lparr>m_buffer := a, m_head := head, m_tail := tail,
                            m_isEmpty := isEmpty, m_capacity := m_capacity from\<rparr>,
                      heap_release buffer (heap_release (m_buffer this) h2))))"

text \<open>
  Copy on write, the first statement of \<^verbatim>\<open>push_back\<close> and \<^verbatim>\<open>pop\<close>:
  \<^verbatim>\<open>if (!m_buffer.unique()) m_buffer.reset(new buffer_type(*m_buffer));\<close>
\<close>

definition copy_on_write ::
  "circular_queue \<Rightarrow> 'a heap \<Rightarrow> error + circular_queue \<times> 'a heap" where
  "copy_on_write q h =
     (if \<not> unique (m_buffer q) h then
        and_then (deref (m_buffer q) h)
          (\<lambda>xs. case heap_new xs h of
             (a, h1) \<Rightarrow> Inr (q\<lparr>m_buffer := a\<rparr>, heap_release (m_buffer q) h1))
      else Inr (q, h))"

definition push_back ::
  "'a \<Rightarrow> circular_queue \<Rightarrow> 'a heap \<Rightarrow> error + circular_queue \<times> 'a heap" where
  "push_back from q h =
     and_then (copy_on_write q h) (\<lambda>(q1, h1).
     and_then (index_add q1 (m_tail q1) 1) (\<lambda>t1.
     and_then (if t1 = m_head q1
               then and_then (index_add q1 (m_head q1) 1) (\<lambda>h1'. Inr (q1\<lparr>m_head := h1'\<rparr>))
               else Inr q1) (\<lambda>q2.
     and_then (if m_isEmpty q2 = False
               then and_then (index_add q2 (m_tail q2) 1) (\<lambda>t2. Inr (q2\<lparr>m_tail := t2\<rparr>))
               else Inr q2) (\<lambda>q3.
     and_then (store_at (m_buffer q3) (m_tail q3) from h1) (\<lambda>h2.
     Inr (q3\<lparr>m_isEmpty := False\<rparr>, h2))))))"

definition pop :: "circular_queue \<Rightarrow> 'a heap \<Rightarrow> error + 'a \<times> circular_queue \<times> 'a heap" where
  "pop q h =
     and_then (copy_on_write q h) (\<lambda>(q1, h1).
     if \<not> m_isEmpty q1 = False then Inl Assertion_failed
     else
       let preHead = m_head q1 in
       and_then (index_add q1 (m_head q1) 1) (\<lambda>hd1.
       let q2 = q1\<lparr>m_head := hd1\<rparr> in
       and_then (index_add q2 (m_tail q2) 1) (\<lambda>t1.
       let q3 = (if m_head q2 = t1 then q2\<lparr>m_tail := m_head q2, m_isEmpty := True\<rparr> else q2) in
       and_then (at_buffer preHead (m_buffer q3) h1) (\<lambda>v.
       Inr (v, q3, h1)))))"

section \<open>The bounded cache: \<^verbatim>\<open>LRU_cache\<close>\<close>

text \<open>
  \<^verbatim>\<open>std::list<std::pair<Key, value_ptr_type>>\<close> is the list of its nodes, front first,
  each node with its address; a list iterator is the address of a node, and stays valid
  when the node is spliced. \<^verbatim>\<open>std::unordered_map<Key, iterator>\<close> is an association list
  with one pair per key, \<^verbatim>\<open>find\<close> being \<open>map_of\<close>, \<^verbatim>\<open>operator[]=\<close> being
  \<open>AList.update\<close>, \<^verbatim>\<open>erase\<close> being \<open>AList.delete\<close> and \<^verbatim>\<open>size()\<close> the length.
  The type \<open>'v\<close> stands for the handle \<^verbatim>\<open>std::shared_ptr<Value>\<close>.
\<close>

type_synonym iterator = nat

record Stats =
  m_get_cnt :: nat
  m_hit_cnt :: nat

record ('k, 'v) LRU_cache =
  m_list :: "(iterator \<times> 'k \<times> 'v) list"
  m_hash_table :: "('k \<times> iterator) list"
  m_max_size :: nat
  m_max_memory_size :: nat
  m_stats :: Stats

text \<open>
  The address of the node that \<^verbatim>\<open>push_front\<close> allocates: some address that no node
  of the list has; which one does not matter, the model takes one past the largest.
\<close>

definition new_node :: "(iterator \<times> 'k \<times> 'v) list \<Rightarrow> iterator" where
  "new_node l = Suc (fold max (map fst l) 0)"

text \<open>
  Dereferencing an iterator: the node of the list at that address, if the list has one.
  An iterator that belongs to no node of this list must not be used on it.
\<close>

definition find_node :: "iterator \<Rightarrow> (iterator \<times> 'k \<times> 'v) list \<Rightarrow> (iterator \<times> 'k \<times> 'v) option" where
  "find_node it l = find (\<lambda>n. fst n = it) l"

text \<open>\<^verbatim>\<open>ite->second->second = value\<close>\<close>

definition set_node_value ::
  "iterator \<Rightarrow> 'v \<Rightarrow> (iterator \<times> 'k \<times> 'v) list \<Rightarrow> error + (iterator \<times> 'k \<times> 'v) list" where
  "set_node_value it value l =
     (case find_node it l of
        None \<Rightarrow> Inl Undefined_behaviour
      | Some n \<Rightarrow> Inr (map (\<lambda>m. if fst m = it then (fst m, fst (snd m), value) else m) l))"

text \<open>\<^verbatim>\<open>m_list.splice(m_list.begin(), m_list, ite->second)\<close>: the node moves to the front.\<close>

definition splice_begin ::
  "iterator \<Rightarrow> (iterator \<times> 'k \<times> 'v) list \<Rightarrow> error + (iterator \<times> 'k \<times> 'v) list" where
  "splice_begin it l =
     (case find_node it l of
        None \<Rightarrow> Inl Undefined_behaviour
      | Some n \<Rightarrow> Inr (n # remove1 n l))"

text \<open>\<^verbatim>\<open>ite->second->second\<close>, read.\<close>

definition node_value :: "iterator \<Rightarrow> (iterator \<times> 'k \<times> 'v) list \<Rightarrow> error + 'v" where
  "node_value it l =
     (case find_node it l of None \<Rightarrow> Inl Undefined_behaviour | Some n \<Rightarrow> Inr (snd (snd n)))"

text \<open>\<^verbatim>\<open>_get_cache_size\<close>: \<^verbatim>\<open>m_hash_table.size()\<close>\<close>

definition get_cache_size :: "('k, 'v) LRU_cache \<Rightarrow> nat" where
  "get_cache_size c = length (m_hash_table c)"

text \<open>
  \<^verbatim>\<open>_get_memory_size\<close>: the product is taken in \<^verbatim>\<open>size_t\<close>;
  \<^verbatim>\<open>sizeof(value_type)\<close> is a constant of the instantiation and a parameter here.
\<close>

definition get_memory_size :: "nat \<Rightarrow> ('k, 'v) LRU_cache \<Rightarrow> nat" where
  "get_memory_size sizeof_value_type c = (get_cache_size c * sizeof_value_type) mod SIZE_MOD"

text \<open>
  \<^verbatim>\<open>_discard_one_elem\<close>: \<^verbatim>\<open>--m_list.end()\<close> is the last node; its key is erased from
  the index, then the node from the list.
\<close>

definition discard_one_elem :: "('k, 'v) LRU_cache \<Rightarrow> error + ('k, 'v) LRU_cache" where
  "discard_one_elem c =
     (if m_list c = [] then Inl Undefined_behaviour
      else
        let ite_list_last = last (m_list c) in
        Inr (c\<lparr>m_hash_table := AList.delete (fst (snd ite_list_last)) (m_hash_table c),
               m_list := butlast (m_list c)\<rparr>))"

text \<open>The two constructors.\<close>

definition LRU_cache_ctor :: "nat \<Rightarrow> ('k, 'v) LRU_cache" where
  "LRU_cache_ctor Size =
     \<lparr>m_list = [], m_hash_table = [], m_max_size = Size, m_max_memory_size = 0,
      m_stats = \<lparr>m_get_cnt = 0, m_hit_cnt = 0\<rparr>\<rparr>"

definition LRU_cache_ctor2 :: "nat \<Rightarrow> nat \<Rightarrow> ('k, 'v) LRU_cache" where
  "LRU_cache_ctor2 Size MemorySize =
     \<lparr>m_list = [], m_hash_table = [], m_max_size = Size, m_max_memory_size = MemorySize,
      m_stats = \<lparr>m_get_cnt = 0, m_hit_cnt = 0\<rparr>\<rparr>"

text \<open>
  The copy constructor and \<^verbatim>\<open>operator=\<close> of \<^verbatim>\<open>LRU_cache\<close> have no embedding: both
  assign \<^verbatim>\<open>this->m_get_cnt\<close> and \<^verbatim>\<open>this->m_hit_cnt\<close>, which are no members of the class
  (the counters are \<^verbatim>\<open>m_stats.m_get_cnt\<close> and \<^verbatim>\<open>m_stats.m_hit_cnt\<close>), and
  \<^verbatim>\<open>operator=\<close> also uses the undeclared \<^verbatim>\<open>BD_SLOCK\<close>. A member function of a class
  template is compiled only when it is used, so the header compiles, and a program that
  copies or assigns a cache does not: no state of a cache comes from either.
\<close>

text \<open>
  \<^verbatim>\<open>push\<close>, in its two parts: \<open>push_entry\<close> is the \<^verbatim>\<open>if\<close>/\<^verbatim>\<open>else\<close> that stores
  the pair, \<open>push\<close> follows it with the eviction test.
\<close>

definition push_entry :: "'k \<Rightarrow> 'v \<Rightarrow> ('k, 'v) LRU_cache \<Rightarrow> error + ('k, 'v) LRU_cache" where
  "push_entry key value c =
     (case map_of (m_hash_table c) key of
        None \<Rightarrow>
          let node = new_node (m_list c);
              c1 = c\<lparr>m_list := (node, key, value) # m_list c\<rparr>
          in Inr (c1\<lparr>m_hash_table := AList.update key node (m_hash_table c1)\<rparr>)
      | Some ite \<Rightarrow>
          and_then (set_node_value ite value (m_list c)) (\<lambda>l1.
          and_then (splice_begin ite l1) (\<lambda>l2.
          Inr (c\<lparr>m_list := l2\<rparr>))))"

definition push :: "nat \<Rightarrow> 'k \<Rightarrow> 'v \<Rightarrow> ('k, 'v) LRU_cache \<Rightarrow> error + ('k, 'v) LRU_cache" where
  "push sizeof_value_type key value c =
     and_then (push_entry key value c) (\<lambda>c1.
       if get_cache_size c1 > m_max_size c1 \<or>
          (m_max_memory_size c1 \<noteq> 0 \<and>
           get_memory_size sizeof_value_type c1 > m_max_memory_size c1)
       then discard_one_elem c1
       else Inr c1)"

text \<open>
  \<^verbatim>\<open>get\<close>: the result is the returned \<^verbatim>\<open>bool\<close>, the out-parameter \<open>value\<close> as the
  call leaves it, and the new state.
\<close>

definition get :: "'k \<Rightarrow> 'v \<Rightarrow> ('k, 'v) LRU_cache \<Rightarrow> error + bool \<times> 'v \<times> ('k, 'v) LRU_cache" where
  "get key value c =
     (let c1 = c\<lparr>m_stats := (m_stats c)\<lparr>m_get_cnt := (m_get_cnt (m_stats c) + 1) mod SIZE_MOD\<rparr>\<rparr>
      in case map_of (m_hash_table c1) key of
           None \<Rightarrow> Inr (False, value, c1)
         | Some ite \<Rightarrow>
             let c2 = c1\<lparr>m_stats := (m_stats c1)\<lparr>m_hit_cnt := (m_hit_cnt (m_stats c1) + 1) mod SIZE_MOD\<rparr>\<rparr>
             in and_then (splice_begin ite (m_list c2)) (\<lambda>l.
                and_then (node_value ite l) (\<lambda>v.
                Inr (True, v, c2\<lparr>m_list := l\<rparr>))))"

text \<open>\<^verbatim>\<open>exists\<close>\<close>

definition exists_lru :: "'k \<Rightarrow> ('k, 'v) LRU_cache \<Rightarrow> bool" where
  "exists_lru key c = (case map_of (m_hash_table c) key of None \<Rightarrow> False | Some ite \<Rightarrow> True)"

text \<open>\<^verbatim>\<open>reset_stats\<close>\<close>

definition reset_stats :: "('k, 'v) LRU_cache \<Rightarrow> ('k, 'v) LRU_cache" where
  "reset_stats c = c\<lparr>m_stats := (m_stats c)\<lparr>m_hit_cnt := 0, m_get_cnt := 0\<rparr>\<rparr>"

text \<open>
  \<^verbatim>\<open>get_hit_rate\<close>: a division of two \<^verbatim>\<open>double\<close>s. The conversion
  \<^verbatim>\<open>static_cast<double>\<close> and the division of the floating-point type are parameters.
\<close>

definition get_hit_rate :: "(nat \<Rightarrow> 'd) \<Rightarrow> ('d \<Rightarrow> 'd \<Rightarrow> 'd) \<Rightarrow> ('k, 'v) LRU_cache \<Rightarrow> 'd" where
  "get_hit_rate to_double fdiv c =
     fdiv (to_double (m_hit_cnt (m_stats c))) (to_double (m_get_cnt (m_stats c)))"

text \<open>
  A sequence of calls on one cache. \<^verbatim>\<open>get\<close> and \<^verbatim>\<open>exists\<close> are called for their
  effect on the state; their results are dropped.
\<close>

datatype ('k, 'v) lru_op = Push 'k 'v | Get 'k 'v | Exists 'k | Reset_stats

fun lru_step :: "nat \<Rightarrow> ('k, 'v) lru_op \<Rightarrow> ('k, 'v) LRU_cache \<Rightarrow> error + ('k, 'v) LRU_cache" where
  "lru_step sz (Push key value) c = push sz key value c"
| "lru_step sz (Get key value) c = and_then (get key value c) (\<lambda>(found, v, c'). Inr c')"
| "lru_step sz (Exists key) c = (case exists_lru key c of True \<Rightarrow> Inr c | False \<Rightarrow> Inr c)"
| "lru_step sz Reset_stats c = Inr (reset_stats c)"

fun lru_run :: "nat \<Rightarrow> ('k, 'v) lru_op list \<Rightarrow> ('k, 'v) LRU_cache \<Rightarrow> error + ('k, 'v) LRU_cache" where
  "lru_run sz [] c = Inr c"
| "lru_run sz (x # ops) c = and_then (lru_step sz x c) (lru_run sz ops)"

text \<open>
  The invariant of the data model: the index holds exactly the pairs (key, address) of
  the nodes of the list, every key once and every address once.
\<close>

definition entries :: "(iterator \<times> 'k \<times> 'v) list \<Rightarrow> ('k \<times> iterator) list" where
  "entries l = map (\<lambda>n. (fst (snd n), fst n)) l"

definition consistent :: "('k, 'v) LRU_cache \<Rightarrow> bool" where
  "consistent c =
     (distinct (map fst (m_hash_table c)) \<and>
      distinct (map fst (entries (m_list c))) \<and>
      distinct (map snd (entries (m_list c))) \<and>
      set (m_hash_table c) = set (entries (m_list c)))"

text \<open>The eviction test of \<^verbatim>\<open>push\<close>, as a predicate on the state after the store.\<close>

definition over_budget :: "nat \<Rightarrow> ('k, 'v) LRU_cache \<Rightarrow> bool" where
  "over_budget sizeof_value_type c =
     (get_cache_size c > m_max_size c \<or>
      (m_max_memory_size c \<noteq> 0 \<and>
       get_memory_size sizeof_value_type c > m_max_memory_size c))"

section \<open>Specification-level notions for the ring buffer\<close>

text \<open>
  The states of a live queue: a capacity of at least one and at most \<open>2 ^ 63\<close> (a
  \<^verbatim>\<open>std::array\<close> is an object, and no object is larger than \<^verbatim>\<open>PTRDIFF_MAX\<close> bytes),
  head and tail inside the array, head and tail equal when the queue is empty, and an
  array of the capacity's length with at least one owner.
\<close>

definition valid :: "circular_queue \<Rightarrow> 'a heap \<Rightarrow> bool" where
  "valid q h =
     (1 \<le> m_capacity q \<and> m_capacity q \<le> 2 ^ 63 \<and>
      m_head q < m_capacity q \<and> m_tail q < m_capacity q \<and>
      (m_isEmpty q \<longrightarrow> m_head q = m_tail q) \<and>
      (case cell (m_buffer q) h of
         None \<Rightarrow> False
       | Some (xs, n) \<Rightarrow> length xs = m_capacity q \<and> 1 \<le> n))"

text \<open>The elements of a queue, oldest first.\<close>

definition elements :: "circular_queue \<Rightarrow> 'a heap \<Rightarrow> 'a list" where
  "elements q h =
     (case cell (m_buffer q) h of
        None \<Rightarrow> []
      | Some (xs, n) \<Rightarrow>
          map (\<lambda>i. xs ! ((m_head q + i) mod m_capacity q)) [0..<size_cq q h])"

text \<open>The same on the bare array, and the number of elements from the indices.\<close>

definition ring :: "nat \<Rightarrow> nat \<Rightarrow> nat \<Rightarrow> 'a list \<Rightarrow> 'a list" where
  "ring cap hh n xs = map (\<lambda>i. xs ! ((hh + i) mod cap)) [0..<n]"

definition occupancy :: "nat \<Rightarrow> nat \<Rightarrow> nat \<Rightarrow> bool \<Rightarrow> nat" where
  "occupancy cap hh tt e =
     (if e then 0 else if hh \<le> tt then tt - hh + 1 else cap - (hh - tt - 1))"

text \<open>Head and tail after \<^verbatim>\<open>push_back\<close> and after \<^verbatim>\<open>pop\<close>, in closed form.\<close>

definition push_head :: "circular_queue \<Rightarrow> nat" where
  "push_head q = (if Suc (m_tail q) mod m_capacity q = m_head q
                  then Suc (m_head q) mod m_capacity q else m_head q)"

definition push_tail :: "circular_queue \<Rightarrow> nat" where
  "push_tail q = (if m_isEmpty q then m_tail q else Suc (m_tail q) mod m_capacity q)"

definition pop_head :: "circular_queue \<Rightarrow> nat" where
  "pop_head q = Suc (m_head q) mod m_capacity q"

definition pop_empties :: "circular_queue \<Rightarrow> bool" where
  "pop_empties q = (pop_head q = Suc (m_tail q) mod m_capacity q)"

text \<open>
  The queue as the specification words it, to be compared with the code:
  \<^verbatim>\<open>push_back\<close> appends at the logical tail and, when the buffer is at capacity, drops
  the oldest element; \<^verbatim>\<open>pop\<close> removes and returns the oldest element and fails on an
  empty buffer.
\<close>

definition spec_push_back :: "nat \<Rightarrow> 'a \<Rightarrow> 'a list \<Rightarrow> 'a list" where
  "spec_push_back cap v xs = (if length xs = cap then tl xs @ [v] else xs @ [v])"

text \<open>
  What a member function of \<open>q\<close> leaves alone: every array of the store other than
  the one \<open>q\<close> owned; the array \<open>q\<close> owns afterwards is that one or a new one.
\<close>

definition untouched :: "circular_queue \<Rightarrow> 'a heap \<Rightarrow> circular_queue \<Rightarrow> 'a heap \<Rightarrow> bool" where
  "untouched q h q' h' =
     ((m_buffer q' = m_buffer q \<or> length h \<le> m_buffer q') \<and> length h \<le> length h' \<and>
      (\<forall>b. b \<noteq> m_buffer q \<longrightarrow> b < length h \<longrightarrow> cell b h' = cell b h))"

text \<open>A sequence of calls on one queue; the values popped are collected.\<close>

datatype 'a op = Push_back 'a | Pop

fun run :: "'a op list \<Rightarrow> circular_queue \<Rightarrow> 'a heap \<Rightarrow>
            error + 'a list \<times> circular_queue \<times> 'a heap" where
  "run [] q h = Inr ([], q, h)"
| "run (Push_back v # ops) q h =
     and_then (push_back v q h) (\<lambda>(q', h'). run ops q' h')"
| "run (Pop # ops) q h =
     and_then (pop q h) (\<lambda>(v, q', h').
     and_then (run ops q' h') (\<lambda>(vs, q'', h''). Inr (v # vs, q'', h'')))"

definition spec_pop :: "'a list \<Rightarrow> ('a \<times> 'a list) option" where
  "spec_pop xs = (case xs of [] \<Rightarrow> None | x # xs' \<Rightarrow> Some (x, xs'))"

fun spec_run :: "nat \<Rightarrow> 'a op list \<Rightarrow> 'a list \<Rightarrow> ('a list \<times> 'a list) option" where
  "spec_run cap [] xs = Some ([], xs)"
| "spec_run cap (Push_back v # ops) xs = spec_run cap ops (spec_push_back cap v xs)"
| "spec_run cap (Pop # ops) xs =
     (case spec_pop xs of
        None \<Rightarrow> None
      | Some (x, xs') \<Rightarrow>
          (case spec_run cap ops xs' of None \<Rightarrow> None | Some (vs, ys) \<Rightarrow> Some (x # vs, ys)))"

text \<open>
  What the public const member functions show of a queue, and the statement that no
  sequence of calls on \<open>a\<close> changes what \<open>b\<close> shows.
\<close>

definition same_view :: "circular_queue \<Rightarrow> 'a heap \<Rightarrow> circular_queue \<Rightarrow> 'a heap \<Rightarrow> bool" where
  "same_view q h q' h' =
     (capacity q = capacity q' \<and> empty_cq q = empty_cq q' \<and> size_cq q h = size_cq q' h' \<and>
      front q h = front q' h' \<and> back_cq q h = back_cq q' h' \<and>
      (\<forall>n. subscript q h n = subscript q' h' n))"

definition unaffected_by :: "circular_queue \<Rightarrow> circular_queue \<Rightarrow> 'a heap \<Rightarrow> bool" where
  "unaffected_by b a h =
     (\<forall>ops rs a' h'. run ops a h = Inr (rs, a', h') \<longrightarrow> same_view b h' b h)"

section \<open>Ring buffer: basic facts\<close>

lemma and_then_Inr [simp]: "and_then (Inr x) f = f x"
  by (simp add: and_then_def)

lemma and_then_Inl [simp]: "and_then (Inl e) f = Inl e"
  by (simp add: and_then_def)

lemma wrap_small: "x < 2 ^ 64 \<Longrightarrow> x mod SIZE_MOD = x"
  by (simp add: SIZE_MOD_def)

lemma index_add_valid:
  assumes "1 \<le> m_capacity q" "m_capacity q \<le> 2 ^ 63" "i < m_capacity q" "n \<le> m_capacity q"
  shows "index_add q i n = Inr ((i + n) mod m_capacity q)"
proof -
  have "i + n < 2 ^ 64" using assms by simp
  then show ?thesis using assms by (simp add: index_add_def wrap_small)
qed

lemma get_size_valid:
  assumes "m_capacity q \<le> 2 ^ 63" "hh < m_capacity q" "tt < m_capacity q"
  shows "get_size q hh tt e =
     (if e then 0 else if hh \<le> tt then tt - hh + 1 else m_capacity q - (hh - tt - 1))"
proof -
  have a: "tt - hh + 1 < 2 ^ 64" using assms by simp
  have b: "hh - tt - 1 < 2 ^ 64" using assms by simp
  have c: "(m_capacity q + SIZE_MOD - (hh - tt - 1)) mod SIZE_MOD = m_capacity q - (hh - tt - 1)"
    if "tt < hh"
  proof -
    have "hh - tt - 1 \<le> m_capacity q" using assms by simp
    then have "m_capacity q + SIZE_MOD - (hh - tt - 1) = (m_capacity q - (hh - tt - 1)) + SIZE_MOD"
      by simp
    moreover have "m_capacity q - (hh - tt - 1) < 2 ^ 64" using assms by simp
    ultimately show ?thesis by (simp add: wrap_small)
  qed
  show ?thesis using a b c by (auto simp: get_size_def wrap_small)
qed

lemma mod_once: "(a::nat) < c + c \<Longrightarrow> a mod c = (if a < c then a else a - c)"
  by (simp add: le_mod_geq)

lemma Suc_mod_lt: "a < c \<Longrightarrow> Suc a mod c = (if Suc a = c then 0 else Suc a)"
  by (simp add: mod_Suc)

lemma length_ring [simp]: "length (ring cap hh n xs) = n"
  by (simp add: ring_def)

lemma nth_ring: "i < n \<Longrightarrow> ring cap hh n xs ! i = xs ! ((hh + i) mod cap)"
  by (simp add: ring_def)

lemma hd_ring: "0 < n \<Longrightarrow> hh < cap \<Longrightarrow> hd (ring cap hh n xs) = xs ! hh"
  by (simp add: ring_def hd_map upt_conv_Cons)

lemma ring_index_inj:
  assumes "(hh::nat) < cap" "i < cap" "j < cap"
  shows "((hh + i) mod cap = (hh + j) mod cap) = (i = j)"
proof -
  have "hh + i < cap + cap" and "hh + j < cap + cap" using assms by linarith+
  then show ?thesis using assms by (auto simp: mod_once)
qed

lemma occupancy_le: "hh < cap \<Longrightarrow> tt < cap \<Longrightarrow> occupancy cap hh tt e \<le> cap"
  unfolding occupancy_def by auto

lemma occupancy_pos: "0 < occupancy cap hh tt e \<longleftrightarrow> \<not> e" if "hh < cap" "tt < cap"
  using that unfolding occupancy_def by auto

lemma write_index:
  assumes "hh < cap" "tt < cap" "e \<longrightarrow> hh = tt"
  shows "(if e then tt else Suc tt mod cap) = (hh + occupancy cap hh tt e) mod cap"
proof (cases e)
  case True
  then show ?thesis using assms by (simp add: occupancy_def)
next
  case False
  have "hh + occupancy cap hh tt False < cap + cap"
    using assms occupancy_le [of hh cap tt False] by simp
  then show ?thesis using False assms
    by (simp add: mod_once Suc_mod_lt) (auto simp: occupancy_def)
qed

lemma new_head:
  assumes "hh < cap" "tt < cap" "e \<longrightarrow> hh = tt"
  shows "(if Suc tt mod cap = hh then Suc hh mod cap else hh) =
         (if occupancy cap hh tt e = cap then Suc hh mod cap else hh)"
  using assms by (auto simp: occupancy_def Suc_mod_lt split: if_splits)

lemma tail_of_occupancy:
  assumes "hh < cap" "tt < cap"
  shows "(hh + occupancy cap hh tt False - 1) mod cap = tt"
proof -
  have "hh + occupancy cap hh tt False - 1 < cap + cap"
    using assms occupancy_le [of hh cap tt False] by simp
  then show ?thesis using assms by (simp add: mod_once) (auto simp: occupancy_def)
qed

lemma push_occupancy:
  assumes "hh < cap" "tt < cap" "e \<longrightarrow> hh = tt"
  shows "occupancy cap (if Suc tt mod cap = hh then Suc hh mod cap else hh)
           (if e then tt else Suc tt mod cap) False =
         (if occupancy cap hh tt e < cap then occupancy cap hh tt e + 1 else cap)"
  using assms by (auto simp: occupancy_def Suc_mod_lt split: if_splits)

lemma push_ring_append:
  assumes "hh < cap" "length xs = cap" "n < cap"
  shows "ring cap hh (Suc n) (xs[(hh + n) mod cap := v]) = ring cap hh n xs @ [v]"
proof (rule nth_equalityI)
  show "length (ring cap hh (Suc n) (xs[(hh + n) mod cap := v])) = length (ring cap hh n xs @ [v])"
    by simp
next
  fix i assume "i < length (ring cap hh (Suc n) (xs[(hh + n) mod cap := v]))"
  then have i: "i < Suc n" by simp
  have inj: "((hh + n) mod cap = (hh + i) mod cap) = (n = i)"
    using assms i by (intro ring_index_inj) simp_all
  have lt: "(hh + n) mod cap < length xs" using assms by simp
  show "ring cap hh (Suc n) (xs[(hh + n) mod cap := v]) ! i = (ring cap hh n xs @ [v]) ! i"
    using i lt inj by (cases "i = n") (simp_all add: nth_ring nth_append nth_list_update)
qed

lemma push_ring_full:
  assumes "hh < cap" "length xs = cap"
  shows "ring cap (Suc hh mod cap) cap (xs[(hh + cap) mod cap := v]) =
         tl (ring cap hh cap xs) @ [v]"
proof (rule nth_equalityI)
  show "length (ring cap (Suc hh mod cap) cap (xs[(hh + cap) mod cap := v])) =
        length (tl (ring cap hh cap xs) @ [v])"
    using assms by simp
next
  fix i assume "i < length (ring cap (Suc hh mod cap) cap (xs[(hh + cap) mod cap := v]))"
  then have i: "i < cap" by simp
  have idx: "(Suc hh mod cap + i) mod cap = (hh + Suc i) mod cap"
    by (metis add_Suc add_Suc_right mod_add_left_eq)
  have w: "(hh + cap) mod cap = hh" using assms by simp
  show "ring cap (Suc hh mod cap) cap (xs[(hh + cap) mod cap := v]) ! i =
        (tl (ring cap hh cap xs) @ [v]) ! i"
  proof (cases "Suc i = cap")
    case True
    then have "(hh + Suc i) mod cap = hh" using assms by simp
    moreover have "\<not> i < cap - Suc 0" using True by simp
    ultimately show ?thesis using i assms
      by (simp add: nth_ring idx w nth_append)
  next
    case False
    then have si: "Suc i < cap" using i by simp
    have "((hh + Suc i) mod cap = (hh + 0) mod cap) = (Suc i = 0)"
      using assms si by (intro ring_index_inj) simp_all
    then have ne: "(hh + Suc i) mod cap \<noteq> hh" using assms by simp
    have "i < cap - Suc 0" using si by simp
    then show ?thesis using i si ne assms
      by (simp add: nth_ring idx w nth_append nth_tl)
  qed
qed

lemma pop_occupancy:
  assumes "hh < cap" "tt < cap"
  shows "occupancy cap (Suc hh mod cap)
           (if Suc hh mod cap = Suc tt mod cap then Suc hh mod cap else tt)
           (Suc hh mod cap = Suc tt mod cap) = occupancy cap hh tt False - 1"
  using assms by (auto simp: occupancy_def Suc_mod_lt split: if_splits)

lemma pop_ring:
  assumes "0 < n"
  shows "ring cap (Suc hh mod cap) (n - 1) xs = tl (ring cap hh n xs)"
proof (rule nth_equalityI)
  show "length (ring cap (Suc hh mod cap) (n - 1) xs) = length (tl (ring cap hh n xs))"
    by simp
next
  fix i assume "i < length (ring cap (Suc hh mod cap) (n - 1) xs)"
  then have i: "Suc i < n" using assms by simp
  have idx: "(Suc hh mod cap + i) mod cap = (hh + Suc i) mod cap"
    by (metis add_Suc add_Suc_right mod_add_left_eq)
  show "ring cap (Suc hh mod cap) (n - 1) xs ! i = tl (ring cap hh n xs) ! i"
    using i by (simp add: nth_ring nth_tl idx)
qed

lemma pop_empty_iff:
  assumes "hh < cap" "tt < cap"
  shows "(Suc hh mod cap = Suc tt mod cap) = (occupancy cap hh tt False = 1)"
  using assms by (auto simp: occupancy_def Suc_mod_lt split: if_splits)

lemma cell_heap_new:
  "cell b (snd (heap_new xs h)) = (if b = length h then Some (xs, 1) else cell b h)"
  by (auto simp: cell_def heap_new_def nth_append)

lemma cell_list_update:
  "cell b (h[a := c]) = (if b = a \<and> a < length h then c else cell b h)"
  by (auto simp: cell_def)

lemma cell_heap_acquire:
  "cell b (heap_acquire a h) =
     (if b = a then map_option (\<lambda>(xs, n). (xs, n + 1)) (cell a h) else cell b h)"
  by (auto simp: heap_acquire_def cell_list_update split: option.splits) (auto simp: cell_def)

lemma cell_heap_release:
  "cell b (heap_release a h) =
     (if b = a then (case cell a h of None \<Rightarrow> None
                     | Some (xs, n) \<Rightarrow> if n \<le> 1 then None else Some (xs, n - 1))
      else cell b h)"
  by (auto simp: heap_release_def cell_list_update split: option.splits) (auto simp: cell_def)

lemma length_heap_new [simp]: "length (snd (heap_new xs h)) = Suc (length h)"
  by (simp add: heap_new_def)

lemma fst_heap_new [simp]: "fst (heap_new xs h) = length h"
  by (simp add: heap_new_def)

lemma length_heap_acquire [simp]: "length (heap_acquire a h) = length h"
  by (simp add: heap_acquire_def split: option.splits)

lemma length_heap_release [simp]: "length (heap_release a h) = length h"
  by (simp add: heap_release_def split: option.splits)

lemma cell_Some_lt: "cell a h = Some c \<Longrightarrow> a < length h"
  by (simp add: cell_def split: if_splits)

lemma deref_cell: "cell a h = Some (xs, n) \<Longrightarrow> deref a h = Inr xs"
  by (simp add: deref_def)

lemma deref_heap_acquire [simp]: "deref b (heap_acquire a h) = deref b h"
  by (auto simp: deref_def cell_heap_acquire split: option.splits)

lemma release_acquire:
  "cell a h = Some (xs, n) \<Longrightarrow> 1 \<le> n \<Longrightarrow> heap_release a (heap_acquire a h) = h"
  by (auto simp: heap_release_def heap_acquire_def cell_list_update split: option.splits)
     (auto simp: cell_def list_update_same_conv split: if_splits)

lemma copy_on_write_valid:
  assumes c: "cell (m_buffer q) h = Some (xs, n)" and n: "1 \<le> n"
  shows "\<exists>a h1. copy_on_write q h = Inr (q\<lparr>m_buffer := a\<rparr>, h1) \<and>
           cell a h1 = Some (xs, 1) \<and> (a = m_buffer q \<or> a = length h) \<and>
           length h \<le> length h1 \<and>
           (\<forall>b. b \<noteq> m_buffer q \<longrightarrow> b < length h \<longrightarrow> cell b h1 = cell b h) \<and>
           (\<forall>b. b < length h \<longrightarrow> b \<noteq> a \<longrightarrow> deref b h1 = deref b h)"
proof (cases "n = 1")
  case True
  then have "copy_on_write q h = Inr (q\<lparr>m_buffer := m_buffer q\<rparr>, h)"
    using c by (simp add: copy_on_write_def unique_def)
  then show ?thesis using c True
    by (intro exI [of _ "m_buffer q"] exI [of _ h]) simp
next
  case False
  let ?h1 = "heap_release (m_buffer q) (snd (heap_new xs h))"
  have lt: "m_buffer q < length h" using c by (rule cell_Some_lt)
  have "copy_on_write q h = Inr (q\<lparr>m_buffer := length h\<rparr>, ?h1)"
    using c False by (simp add: copy_on_write_def unique_def deref_cell heap_new_def)
  moreover have "cell (length h) ?h1 = Some (xs, 1)"
    using lt by (simp add: cell_heap_release cell_heap_new)
  moreover have "\<forall>b. b \<noteq> m_buffer q \<longrightarrow> b < length h \<longrightarrow> cell b ?h1 = cell b h"
    by (simp add: cell_heap_release cell_heap_new)
  moreover have "\<forall>b. b < length h \<longrightarrow> b \<noteq> length h \<longrightarrow> deref b ?h1 = deref b h"
    using c n False by (auto simp: deref_def cell_heap_release cell_heap_new)
  ultimately show ?thesis by auto
qed

lemma push_back_valid:
  assumes w: "valid q h" and c: "cell (m_buffer q) h = Some (xs, n)"
  shows "\<exists>a h'. push_back v q h =
             Inr (q\<lparr>m_buffer := a, m_head := push_head q, m_tail := push_tail q,
                    m_isEmpty := False\<rparr>, h') \<and>
           cell a h' = Some (xs[push_tail q := v], 1) \<and> (a = m_buffer q \<or> a = length h) \<and>
           length h \<le> length h' \<and>
           (\<forall>b. b \<noteq> m_buffer q \<longrightarrow> b < length h \<longrightarrow> cell b h' = cell b h) \<and>
           (\<forall>b. b < length h \<longrightarrow> b \<noteq> a \<longrightarrow> deref b h' = deref b h)"
proof -
  from w c have cap: "1 \<le> m_capacity q" "m_capacity q \<le> 2 ^ 63"
    and hd: "m_head q < m_capacity q" and tl: "m_tail q < m_capacity q"
    and len: "length xs = m_capacity q" and n: "1 \<le> n"
    by (simp_all add: valid_def)
  from copy_on_write_valid [OF c n] obtain a h1 where
    cow: "copy_on_write q h = Inr (q\<lparr>m_buffer := a\<rparr>, h1)"
    and ca: "cell a h1 = Some (xs, 1)" and a: "a = m_buffer q \<or> a = length h"
    and le: "length h \<le> length h1"
    and fr: "\<forall>b. b \<noteq> m_buffer q \<longrightarrow> b < length h \<longrightarrow> cell b h1 = cell b h"
    and fd: "\<forall>b. b < length h \<longrightarrow> b \<noteq> a \<longrightarrow> deref b h1 = deref b h"
    by blast
  have ia: "index_add (q\<lparr>m_buffer := a\<rparr>) i (Suc 0) = Inr (Suc i mod m_capacity q)"
    if "i < m_capacity q" for i
    using index_add_valid [of "q\<lparr>m_buffer := a\<rparr>" i 1] cap that by simp
  have ib: "index_add (q\<lparr>m_buffer := a, m_head := x\<rparr>) i (Suc 0) = Inr (Suc i mod m_capacity q)"
    if "i < m_capacity q" for i x
    using index_add_valid [of "q\<lparr>m_buffer := a, m_head := x\<rparr>" i 1] cap that by simp
  have pt: "push_tail q < length xs"
    using tl len cap by (simp add: push_tail_def)
  let ?h' = "h1[a := Some (xs[push_tail q := v], 1)]"
  have alt: "a < length h1" using ca by (rule cell_Some_lt)
  have st: "store_at a i v h1 = Inr (h1[a := Some (xs[i := v], Suc 0)])"
    if "i < m_capacity q" for i
    using ca len that by (simp add: store_at_def)
  have "push_back v q h =
          Inr (q\<lparr>m_buffer := a, m_head := push_head q, m_tail := push_tail q,
                 m_isEmpty := False\<rparr>, ?h')"
    using hd tl cap
    by (simp add: push_back_def cow ia ib st push_head_def push_tail_def)
  moreover have "cell a ?h' = Some (xs[push_tail q := v], 1)"
    using alt by (simp add: cell_list_update)
  moreover have "\<forall>b. b \<noteq> m_buffer q \<longrightarrow> b < length h \<longrightarrow> cell b ?h' = cell b h"
    using fr a by (auto simp: cell_list_update)
  moreover have "\<forall>b. b < length h \<longrightarrow> b \<noteq> a \<longrightarrow> deref b ?h' = deref b h"
    using fd by (auto simp: deref_def cell_list_update)
  ultimately show ?thesis using a le by auto
qed

lemma pop_valid:
  assumes w: "valid q h" and c: "cell (m_buffer q) h = Some (xs, n)" and ne: "\<not> m_isEmpty q"
  shows "\<exists>a h'. pop q h =
             Inr (xs ! m_head q,
                  q\<lparr>m_buffer := a, m_head := pop_head q,
                    m_tail := (if pop_empties q then pop_head q else m_tail q),
                    m_isEmpty := pop_empties q\<rparr>, h') \<and>
           cell a h' = Some (xs, 1) \<and> (a = m_buffer q \<or> a = length h) \<and>
           length h \<le> length h' \<and>
           (\<forall>b. b \<noteq> m_buffer q \<longrightarrow> b < length h \<longrightarrow> cell b h' = cell b h) \<and>
           (\<forall>b. b < length h \<longrightarrow> b \<noteq> a \<longrightarrow> deref b h' = deref b h)"
proof -
  from w c have cap: "1 \<le> m_capacity q" "m_capacity q \<le> 2 ^ 63"
    and hd: "m_head q < m_capacity q" and tl: "m_tail q < m_capacity q"
    and len: "length xs = m_capacity q" and n: "1 \<le> n"
    by (simp_all add: valid_def)
  from copy_on_write_valid [OF c n] obtain a h1 where
    cow: "copy_on_write q h = Inr (q\<lparr>m_buffer := a\<rparr>, h1)"
    and ca: "cell a h1 = Some (xs, 1)" and a: "a = m_buffer q \<or> a = length h"
    and le: "length h \<le> length h1"
    and fr: "\<forall>b. b \<noteq> m_buffer q \<longrightarrow> b < length h \<longrightarrow> cell b h1 = cell b h"
    and fd: "\<forall>b. b < length h \<longrightarrow> b \<noteq> a \<longrightarrow> deref b h1 = deref b h"
    by blast
  have ia: "index_add (q\<lparr>m_buffer := a\<rparr>) i (Suc 0) = Inr (Suc i mod m_capacity q)"
    if "i < m_capacity q" for i
    using index_add_valid [of "q\<lparr>m_buffer := a\<rparr>" i 1] cap that by simp
  have ib: "index_add (q\<lparr>m_buffer := a, m_head := x\<rparr>) i (Suc 0) = Inr (Suc i mod m_capacity q)"
    if "i < m_capacity q" for i x
    using index_add_valid [of "q\<lparr>m_buffer := a, m_head := x\<rparr>" i 1] cap that by simp
  have rd: "at_buffer (m_head q) a h1 = Inr (xs ! m_head q)"
    using ca hd len by (simp add: at_buffer_def deref_cell)
  have "pop q h =
          Inr (xs ! m_head q,
               q\<lparr>m_buffer := a, m_head := pop_head q,
                 m_tail := (if pop_empties q then pop_head q else m_tail q),
                 m_isEmpty := pop_empties q\<rparr>, h1)"
    using hd tl cap ne
    by (simp add: pop_def cow ia ib rd pop_head_def pop_empties_def Let_def)
  then show ?thesis using ca a le fr fd by blast
qed

lemma pop_empty:
  assumes w: "valid q h" and e: "m_isEmpty q"
  shows "pop q h = Inl Assertion_failed"
proof -
  from w obtain xs n where c: "cell (m_buffer q) h = Some (xs, n)" and n: "1 \<le> n"
    by (auto simp: valid_def split: option.splits)
  from copy_on_write_valid [OF c n] obtain a h1 where
    cow: "copy_on_write q h = Inr (q\<lparr>m_buffer := a\<rparr>, h1)"
    by blast
  show ?thesis using e by (simp add: pop_def cow)
qed

lemma size_cq_valid:
  assumes "valid q h"
  shows "size_cq q h = occupancy (m_capacity q) (m_head q) (m_tail q) (m_isEmpty q)"
  using assms get_size_valid [of q "m_head q" "m_tail q" "m_isEmpty q"]
  by (simp add: size_cq_def get_buffer_def valid_def occupancy_def)

lemma elements_valid:
  assumes "valid q h" "cell (m_buffer q) h = Some (xs, n)"
  shows "elements q h =
     ring (m_capacity q) (m_head q)
       (occupancy (m_capacity q) (m_head q) (m_tail q) (m_isEmpty q)) xs"
  using assms by (simp add: elements_def size_cq_valid ring_def)

lemma length_elements: "valid q h \<Longrightarrow> length (elements q h) = size_cq q h"
  by (auto simp: elements_def valid_def split: option.splits)

lemma size_cq_le: "valid q h \<Longrightarrow> size_cq q h \<le> m_capacity q"
  by (simp add: size_cq_valid occupancy_le valid_def)

lemma size_cq_0: "valid q h \<Longrightarrow> (size_cq q h = 0) = m_isEmpty q"
  using occupancy_pos [of "m_head q" "m_capacity q" "m_tail q" "m_isEmpty q"]
  by (auto simp: size_cq_valid valid_def)

lemma push_back_sim:
  assumes w: "valid q h"
  shows "\<exists>q' h'. push_back v q h = Inr (q', h') \<and> valid q' h' \<and>
           m_capacity q' = m_capacity q \<and>
           elements q' h' = spec_push_back (m_capacity q) v (elements q h) \<and>
           m_head q' = (if size_cq q h = m_capacity q
                        then (m_head q + 1) mod m_capacity q else m_head q) \<and>
           untouched q h q' h'"
proof -
  from w obtain xs n where c: "cell (m_buffer q) h = Some (xs, n)"
    by (auto simp: valid_def split: option.splits)
  from w c have cap: "1 \<le> m_capacity q" "m_capacity q \<le> 2 ^ 63"
    and hd: "m_head q < m_capacity q" and tl: "m_tail q < m_capacity q"
    and em: "m_isEmpty q \<longrightarrow> m_head q = m_tail q"
    and len: "length xs = m_capacity q"
    by (simp_all add: valid_def)
  let ?cap = "m_capacity q"
  let ?occ = "occupancy ?cap (m_head q) (m_tail q) (m_isEmpty q)"
  let ?q' = "\<lambda>a. q\<lparr>m_buffer := a, m_head := push_head q, m_tail := push_tail q,
                m_isEmpty := False\<rparr>"
  from push_back_valid [OF w c, of v] obtain a h' where
    pb: "push_back v q h = Inr (?q' a, h')"
    and ca: "cell a h' = Some (xs[push_tail q := v], 1)"
    and a: "a = m_buffer q \<or> a = length h" and le: "length h \<le> length h'"
    and fr: "\<forall>b. b \<noteq> m_buffer q \<longrightarrow> b < length h \<longrightarrow> cell b h' = cell b h"
    by blast
  have ph: "push_head q = (if ?occ = ?cap then Suc (m_head q) mod ?cap else m_head q)"
    unfolding push_head_def using hd tl em by (rule new_head)
  have pt: "push_tail q = (m_head q + ?occ) mod ?cap"
    unfolding push_tail_def using hd tl em by (rule write_index)
  have phlt: "push_head q < ?cap" using hd cap by (simp add: push_head_def)
  have ptlt: "push_tail q < ?cap" using tl cap by (simp add: push_tail_def)
  have w': "valid (?q' a) h'"
    using cap phlt ptlt ca len by (simp add: valid_def)
  have occ': "occupancy ?cap (push_head q) (push_tail q) False =
              (if ?occ < ?cap then ?occ + 1 else ?cap)"
    unfolding push_head_def push_tail_def using hd tl em by (rule push_occupancy)
  have el: "elements q h = ring ?cap (m_head q) ?occ xs"
    using w c by (rule elements_valid)
  have el': "elements (?q' a) h' =
             ring ?cap (push_head q) (if ?occ < ?cap then ?occ + 1 else ?cap) (xs[push_tail q := v])"
    using elements_valid [OF w' , of "xs[push_tail q := v]" 1] ca occ' by simp
  have occle: "?occ \<le> ?cap" using hd tl by (rule occupancy_le)
  have "elements (?q' a) h' = spec_push_back ?cap v (elements q h)"
  proof (cases "?occ < ?cap")
    case True
    have "ring ?cap (push_head q) (if ?occ < ?cap then ?occ + 1 else ?cap) (xs[push_tail q := v]) =
          spec_push_back ?cap v (ring ?cap (m_head q) ?occ xs)"
      using push_ring_append [OF hd len True, of v] True
      by (simp add: ph pt spec_push_back_def)
    then show ?thesis unfolding el el' .
  next
    case False
    then have full: "?occ = ?cap" using occle by simp
    have "ring ?cap (push_head q) (if ?occ < ?cap then ?occ + 1 else ?cap) (xs[push_tail q := v]) =
          spec_push_back ?cap v (ring ?cap (m_head q) ?occ xs)"
      using push_ring_full [OF hd len, of v] full
      by (simp add: ph pt spec_push_back_def)
    then show ?thesis unfolding el el' .
  qed
  moreover have "untouched q h (?q' a) h'"
    using a le fr by (auto simp: untouched_def)
  moreover have "m_head (?q' a) = (if size_cq q h = ?cap then (m_head q + 1) mod ?cap else m_head q)"
    using ph by (simp add: size_cq_valid [OF w])
  ultimately show ?thesis using pb w' by (intro exI [of _ "?q' a"] exI [of _ h']) simp
qed

lemma pop_sim:
  assumes w: "valid q h" and ne: "\<not> m_isEmpty q"
  shows "\<exists>q' h'. pop q h = Inr (hd (elements q h), q', h') \<and> valid q' h' \<and>
           m_capacity q' = m_capacity q \<and>
           elements q' h' = tl (elements q h) \<and>
           (m_isEmpty q' \<longrightarrow> m_head q' = m_tail q') \<and>
           untouched q h q' h'"
proof -
  from w obtain xs n where c: "cell (m_buffer q) h = Some (xs, n)"
    by (auto simp: valid_def split: option.splits)
  from w c have cap: "1 \<le> m_capacity q" "m_capacity q \<le> 2 ^ 63"
    and hd: "m_head q < m_capacity q" and tl: "m_tail q < m_capacity q"
    and len: "length xs = m_capacity q"
    by (simp_all add: valid_def)
  let ?cap = "m_capacity q"
  let ?occ = "occupancy ?cap (m_head q) (m_tail q) False"
  let ?q' = "\<lambda>a. q\<lparr>m_buffer := a, m_head := pop_head q,
                    m_tail := (if pop_empties q then pop_head q else m_tail q),
                    m_isEmpty := pop_empties q\<rparr>"
  from pop_valid [OF w c ne] obtain a h' where
    pb: "pop q h = Inr (xs ! m_head q, ?q' a, h')"
    and ca: "cell a h' = Some (xs, 1)"
    and a: "a = m_buffer q \<or> a = length h" and le: "length h \<le> length h'"
    and fr: "\<forall>b. b \<noteq> m_buffer q \<longrightarrow> b < length h \<longrightarrow> cell b h' = cell b h"
    by blast
  have phlt: "pop_head q < ?cap" using cap by (simp add: pop_head_def)
  have w': "valid (?q' a) h'"
    using cap phlt tl ca len by (simp add: valid_def)
  have pos: "0 < ?occ" using occupancy_pos [OF hd tl, of False] by simp
  have occ': "occupancy ?cap (pop_head q) (if pop_empties q then pop_head q else m_tail q)
                (pop_empties q) = ?occ - 1"
    unfolding pop_head_def pop_empties_def using hd tl by (rule pop_occupancy)
  have el: "elements q h = ring ?cap (m_head q) ?occ xs"
    using elements_valid [OF w c] ne by simp
  have el': "elements (?q' a) h' = ring ?cap (pop_head q) (?occ - 1) xs"
    using elements_valid [OF w', of xs 1] ca occ' by simp
  have "ring ?cap (pop_head q) (?occ - 1) xs = tl (ring ?cap (m_head q) ?occ xs)"
    unfolding pop_head_def using pos by (rule pop_ring)
  then have "elements (?q' a) h' = tl (elements q h)"
    unfolding el el' .
  moreover have "hd (elements q h) = xs ! m_head q"
    unfolding el using pos hd by (rule hd_ring)
  moreover have "untouched q h (?q' a) h'"
    using a le fr by (auto simp: untouched_def)
  ultimately show ?thesis using pb w' by (intro exI [of _ "?q' a"] exI [of _ h']) simp
qed

lemma front_empty: "m_isEmpty q \<Longrightarrow> front q h = Inl Assertion_failed"
  by (simp add: front_def get_buffer_def)

lemma back_empty: "m_isEmpty q \<Longrightarrow> back_cq q h = Inl Assertion_failed"
  by (simp add: back_cq_def get_buffer_def)

lemma subscript_out_of_range: "size_cq q h \<le> n \<Longrightarrow> subscript q h n = Inl Assertion_failed"
  by (simp add: subscript_def size_cq_def get_buffer_def)

lemma subscript_valid:
  assumes w: "valid q h" and n: "n < size_cq q h"
  shows "subscript q h n = Inr (elements q h ! n)"
    and "subscript q h n = at_buffer ((m_head q + n) mod m_capacity q) (m_buffer q) h"
proof -
  from w obtain xs k where c: "cell (m_buffer q) h = Some (xs, k)"
    by (auto simp: valid_def split: option.splits)
  from w c have cap: "1 \<le> m_capacity q" "m_capacity q \<le> 2 ^ 63"
    and hd: "m_head q < m_capacity q" and len: "length xs = m_capacity q"
    by (simp_all add: valid_def)
  have nle: "n \<le> m_capacity q" using n size_cq_le [OF w] by simp
  have ia: "index_add q (m_head q) n = Inr ((m_head q + n) mod m_capacity q)"
    using cap hd nle by (rule index_add_valid)
  have lt: "(m_head q + n) mod m_capacity q < length xs" using cap len by simp
  have d: "deref (m_buffer q) h = Inr xs" using c by (rule deref_cell)
  have gs: "get_size q (m_head q) (m_tail q) (m_isEmpty q) = size_cq q h"
    by (simp add: size_cq_def get_buffer_def)
  have s: "subscript q h n = Inr (xs ! ((m_head q + n) mod m_capacity q))"
    using n lt by (simp add: subscript_def get_buffer_def gs ia at_buffer_def d)
  have e: "elements q h ! n = xs ! ((m_head q + n) mod m_capacity q)"
    using n by (simp add: elements_valid [OF w c] size_cq_valid [OF w] nth_ring)
  show "subscript q h n = Inr (elements q h ! n)" using s e by simp
  show "subscript q h n = at_buffer ((m_head q + n) mod m_capacity q) (m_buffer q) h"
    using s lt by (simp add: at_buffer_def d)
qed

lemma front_valid:
  assumes w: "valid q h" and ne: "\<not> m_isEmpty q"
  shows "front q h = Inr (elements q h ! 0)" and "front q h = subscript q h 0"
proof -
  have pos: "0 < size_cq q h" using size_cq_0 [OF w] ne by simp
  from w obtain xs k where c: "cell (m_buffer q) h = Some (xs, k)"
    by (auto simp: valid_def split: option.splits)
  from w c have cap: "1 \<le> m_capacity q" "m_capacity q \<le> 2 ^ 63"
    and hd: "m_head q < m_capacity q" and len: "length xs = m_capacity q"
    by (simp_all add: valid_def)
  have d: "deref (m_buffer q) h = Inr xs" using c by (rule deref_cell)
  have f: "front q h = Inr (xs ! m_head q)"
    using ne hd len by (simp add: front_def get_buffer_def at_buffer_def d)
  have e: "elements q h ! 0 = xs ! m_head q"
    using pos hd by (simp add: elements_valid [OF w c] size_cq_valid [OF w] nth_ring)
  show "front q h = Inr (elements q h ! 0)" using f e by simp
  then show "front q h = subscript q h 0" using subscript_valid(1) [OF w pos] by simp
qed

lemma back_valid:
  assumes w: "valid q h" and ne: "\<not> m_isEmpty q"
  shows "back_cq q h = Inr (elements q h ! (size_cq q h - 1))"
    and "back_cq q h = subscript q h (size_cq q h - 1)"
proof -
  have pos: "0 < size_cq q h" using size_cq_0 [OF w] ne by simp
  from w obtain xs k where c: "cell (m_buffer q) h = Some (xs, k)"
    by (auto simp: valid_def split: option.splits)
  from w c have cap: "1 \<le> m_capacity q" "m_capacity q \<le> 2 ^ 63"
    and hd: "m_head q < m_capacity q" and tl: "m_tail q < m_capacity q"
    and len: "length xs = m_capacity q"
    by (simp_all add: valid_def)
  have d: "deref (m_buffer q) h = Inr xs" using c by (rule deref_cell)
  have f: "back_cq q h = Inr (xs ! m_tail q)"
    using ne tl len by (simp add: back_cq_def get_buffer_def at_buffer_def d)
  have t: "(m_head q + occupancy (m_capacity q) (m_head q) (m_tail q) False - 1) mod m_capacity q
           = m_tail q"
    using hd tl by (rule tail_of_occupancy)
  have e: "elements q h ! (size_cq q h - 1) = xs ! m_tail q"
    using pos ne t by (simp add: elements_valid [OF w c] size_cq_valid [OF w] nth_ring)
  show "back_cq q h = Inr (elements q h ! (size_cq q h - 1))" using f e by simp
  then show "back_cq q h = subscript q h (size_cq q h - 1)"
    using subscript_valid(1) [OF w, of "size_cq q h - 1"] pos by simp
qed

lemma untouched_refl: "untouched q h q h"
  by (simp add: untouched_def)

lemma untouched_trans:
  assumes "untouched q h q' h'" "untouched q' h' q'' h''" "m_buffer q < length h"
  shows "untouched q h q'' h''"
proof -
  from assms have b: "m_buffer q' = m_buffer q \<or> length h \<le> m_buffer q'"
    and l: "length h \<le> length h'"
    and c: "\<And>b. b \<noteq> m_buffer q \<Longrightarrow> b < length h \<Longrightarrow> cell b h' = cell b h"
    and b': "m_buffer q'' = m_buffer q' \<or> length h' \<le> m_buffer q''"
    and l': "length h' \<le> length h''"
    and c': "\<And>b. b \<noteq> m_buffer q' \<Longrightarrow> b < length h' \<Longrightarrow> cell b h'' = cell b h'"
    by (simp_all add: untouched_def)
  have "m_buffer q'' = m_buffer q \<or> length h \<le> m_buffer q''"
    using b b' l by linarith
  moreover have "length h \<le> length h''" using l l' by simp
  moreover have "cell b h'' = cell b h" if "b \<noteq> m_buffer q" "b < length h" for b
  proof -
    have "b \<noteq> m_buffer q'" using b that by auto
    moreover have "b < length h'" using that l by simp
    ultimately have "cell b h'' = cell b h'" by (rule c')
    then show ?thesis using c [OF that] by simp
  qed
  ultimately show ?thesis by (simp add: untouched_def)
qed

lemma valid_buffer_lt: "valid q h \<Longrightarrow> m_buffer q < length h"
  by (auto simp: valid_def cell_def split: option.splits if_splits)

lemma elements_Nil: "valid q h \<Longrightarrow> (elements q h = []) = m_isEmpty q"
  using length_elements [of q h] size_cq_0 [of q h] by auto

lemma run_sim:
  assumes "valid q h"
  shows "case spec_run (m_capacity q) ops (elements q h) of
           None \<Rightarrow> run ops q h = Inl Assertion_failed
         | Some (vs, ys) \<Rightarrow>
             (\<exists>q' h'. run ops q h = Inr (vs, q', h') \<and> valid q' h' \<and>
                m_capacity q' = m_capacity q \<and> elements q' h' = ys \<and> untouched q h q' h')"
  using assms
proof (induction ops arbitrary: q h)
  case Nil
  then show ?case by (simp add: untouched_refl)
next
  case (Cons x ops)
  show ?case
  proof (cases x)
    case (Push_back v)
    from push_back_sim [OF Cons.prems, of v] obtain q1 h1 where
      pb: "push_back v q h = Inr (q1, h1)" and w1: "valid q1 h1"
      and c1: "m_capacity q1 = m_capacity q"
      and e1: "elements q1 h1 = spec_push_back (m_capacity q) v (elements q h)"
      and u1: "untouched q h q1 h1"
      by blast
    from Cons.IH [OF w1] show ?thesis
      using Push_back pb c1 e1 u1 valid_buffer_lt [OF Cons.prems]
      by (auto split: option.splits intro: untouched_trans)
  next
    case Pop
    show ?thesis
    proof (cases "m_isEmpty q")
      case True
      then have "elements q h = []" using elements_Nil [OF Cons.prems] by simp
      then show ?thesis using Pop True pop_empty [OF Cons.prems]
        by (simp add: spec_pop_def)
    next
      case False
      from pop_sim [OF Cons.prems False] obtain q1 h1 where
        pb: "pop q h = Inr (hd (elements q h), q1, h1)" and w1: "valid q1 h1"
        and c1: "m_capacity q1 = m_capacity q"
        and e1: "elements q1 h1 = tl (elements q h)"
        and u1: "untouched q h q1 h1"
        by blast
      have ne: "elements q h \<noteq> []" using elements_Nil [OF Cons.prems] False by simp
      then obtain y ys where ys: "elements q h = y # ys" by (cases "elements q h") auto
      from Cons.IH [OF w1] show ?thesis
        using Pop pb c1 e1 u1 ys valid_buffer_lt [OF Cons.prems]
        by (auto simp: spec_pop_def split: option.splits intro: untouched_trans)
    qed
  qed
qed

lemma ctor_valid:
  assumes "1 \<le> C" "C \<le> 2 ^ 63" "circular_queue_ctor C init h0 = (q, h)"
  shows "valid q h" "empty_cq q" "m_capacity q = C" "size_cq q h = 0"
  using assms
  by (auto simp: circular_queue_ctor_def heap_new_def valid_def cell_def empty_cq_def
        size_cq_def get_buffer_def get_size_def)

lemma spec_run_pushes:
  "length xs + length vs \<le> cap \<Longrightarrow>
   spec_run cap (map Push_back vs) xs = Some ([], xs @ vs)"
  by (induction vs arbitrary: xs) (auto simp: spec_push_back_def)

lemma spec_run_pops: "spec_run cap (replicate (length xs) Pop) xs = Some (xs, [])"
  by (induction xs) (auto simp: spec_pop_def)

lemma run_valid:
  assumes "valid q h" "run ops q h = Inr (rs, q', h')"
  shows "valid q' h'" "untouched q h q' h'" "m_capacity q' = m_capacity q"
    "spec_run (m_capacity q) ops (elements q h) = Some (rs, elements q' h')"
  using run_sim [OF assms(1), of ops] assms(2)
  by (auto split: option.splits)

lemma view_cong:
  assumes "m_capacity q = m_capacity q'" "m_head q = m_head q'" "m_tail q = m_tail q'"
    "m_isEmpty q = m_isEmpty q'" "deref (m_buffer q) h = deref (m_buffer q') h'"
  shows "same_view q h q' h'"
  using assms
  by (simp add: same_view_def capacity_def empty_cq_def size_cq_def front_def back_cq_def
        subscript_def get_buffer_def get_size_def index_add_def at_buffer_def)

lemma deref_cong: "cell a h = cell b h' \<Longrightarrow> deref a h = deref b h'"
  by (simp add: deref_def)

lemma unaffected_byI:
  assumes "valid a h" "m_buffer b \<noteq> m_buffer a" "m_buffer b < length h"
  shows "unaffected_by b a h"
  unfolding unaffected_by_def
proof (intro allI impI)
  fix ops rs a' h'
  assume "run ops a h = Inr (rs, a', h')"
  then have "untouched a h a' h'" using run_valid(2) [OF assms(1)] by blast
  then have "cell (m_buffer b) h' = cell (m_buffer b) h"
    using assms(2,3) by (simp add: untouched_def)
  then show "same_view b h' b h" by (intro view_cong deref_cong) simp_all
qed

lemma cell_snoc:
  "cell b (h @ [c]) = (if b = length h then c else cell b h)"
  by (auto simp: cell_def nth_append)

lemma copy_facts:
  assumes v: "valid src h"
  shows "\<exists>cpy h1. circular_queue_copy src h = Inr (cpy, h1) \<and> valid cpy h1 \<and> valid src h1 \<and>
           m_buffer cpy = length h \<and> m_capacity cpy = m_capacity src \<and>
           m_head cpy = m_head src \<and> m_tail cpy = m_tail src \<and>
           m_isEmpty cpy = m_isEmpty src \<and> length h1 = Suc (length h) \<and>
           cell (m_buffer src) h1 = cell (m_buffer src) h \<and>
           deref (m_buffer cpy) h1 = deref (m_buffer src) h"
proof -
  from v obtain xs n where c: "cell (m_buffer src) h = Some (xs, n)" and n: "1 \<le> n"
    and len: "length xs = m_capacity src"
    by (auto simp: valid_def split: option.splits)
  have lt: "m_buffer src < length h" using c by (rule cell_Some_lt)
  let ?h1 = "heap_release (m_buffer src) (heap_acquire (m_buffer src) h @ [Some (xs, 1)])"
  let ?cpy = "\<lparr>m_buffer = length h, m_capacity = m_capacity src, m_head = m_head src,
               m_tail = m_tail src, m_isEmpty = m_isEmpty src\<rparr>"
  have d: "deref (m_buffer src) h = Inr xs"
    using c by (rule deref_cell)
  have eq: "circular_queue_copy src h = Inr (?cpy, ?h1)"
    by (simp add: circular_queue_copy_def get_buffer_def d heap_new_def)
  have c_src: "cell (m_buffer src) ?h1 = Some (xs, n)"
    using c lt n by (simp add: cell_heap_release cell_snoc cell_heap_acquire)
  have c_new: "cell (length h) ?h1 = Some (xs, 1)"
    using lt by (simp add: cell_heap_release cell_snoc)
  have "valid ?cpy ?h1" using v c_new len by (simp add: valid_def)
  moreover have "valid src ?h1" using v c_src len n by (simp add: valid_def)
  moreover have "deref (m_buffer ?cpy) ?h1 = deref (m_buffer src) h"
    using c_new c by (simp add: deref_def)
  ultimately show ?thesis using eq c_src c by (intro exI [of _ ?cpy] exI [of _ ?h1]) simp
qed

lemma assign_facts:
  assumes v: "valid src h" and t: "valid this h" and ne: "m_buffer this \<noteq> m_buffer src"
  shows "\<exists>dst h1. assign this src h = Inr (dst, h1) \<and> valid dst h1 \<and> valid src h1 \<and>
           m_buffer dst = length h \<and> m_capacity dst = m_capacity src \<and>
           m_head dst = m_head src \<and> m_tail dst = m_tail src \<and>
           m_isEmpty dst = m_isEmpty src \<and> length h1 = Suc (length h) \<and>
           cell (m_buffer src) h1 = cell (m_buffer src) h \<and>
           deref (m_buffer dst) h1 = deref (m_buffer src) h"
proof -
  from v obtain xs n where c: "cell (m_buffer src) h = Some (xs, n)" and n: "1 \<le> n"
    and len: "length xs = m_capacity src"
    by (auto simp: valid_def split: option.splits)
  have lt: "m_buffer src < length h" using c by (rule cell_Some_lt)
  have tlt: "m_buffer this < length h" using t by (rule valid_buffer_lt)
  let ?h1 = "heap_release (m_buffer src)
               (heap_release (m_buffer this) (heap_acquire (m_buffer src) h @ [Some (xs, 1)]))"
  let ?dst = "this\<lparr>m_buffer := length h, m_head := m_head src, m_tail := m_tail src,
                   m_isEmpty := m_isEmpty src, m_capacity := m_capacity src\<rparr>"
  have d: "deref (m_buffer src) h = Inr xs"
    using c by (rule deref_cell)
  have eq: "assign this src h = Inr (?dst, ?h1)"
    by (simp add: assign_def get_buffer_def d heap_new_def)
  have c_src: "cell (m_buffer src) ?h1 = Some (xs, n)"
    using c lt tlt n ne by (simp add: cell_heap_release cell_snoc cell_heap_acquire)
  have c_new: "cell (length h) ?h1 = Some (xs, 1)"
    using lt tlt by (simp add: cell_heap_release cell_snoc)
  have "valid ?dst ?h1" using v c_new len by (simp add: valid_def)
  moreover have "valid src ?h1" using v c_src len n by (simp add: valid_def)
  moreover have "deref (m_buffer ?dst) ?h1 = deref (m_buffer src) h"
    using c_new c by (simp add: deref_def)
  ultimately show ?thesis using eq c_src c by (intro exI [of _ ?dst] exI [of _ ?h1]) simp
qed

lemma snapshot_independent:
  assumes "valid cpy h1" "valid src h1" "m_buffer cpy = length h" "length h1 = Suc (length h)"
    "m_buffer src < length h" "m_capacity cpy = m_capacity src" "m_head cpy = m_head src"
    "m_tail cpy = m_tail src" "m_isEmpty cpy = m_isEmpty src"
    "cell (m_buffer src) h1 = cell (m_buffer src) h"
    "deref (m_buffer cpy) h1 = deref (m_buffer src) h"
  shows "same_view cpy h1 src h \<and> same_view src h1 src h \<and>
         unaffected_by cpy src h1 \<and> unaffected_by src cpy h1"
proof -
  have "same_view cpy h1 src h" using assms by (intro view_cong) simp_all
  moreover have "same_view src h1 src h" using assms by (intro view_cong deref_cong) simp_all
  moreover have "unaffected_by cpy src h1" using assms by (intro unaffected_byI) simp_all
  moreover have "unaffected_by src cpy h1" using assms by (intro unaffected_byI) simp_all
  ultimately show ?thesis by simp
qed

text \<open>The definitions a concrete run unfolds.\<close>

lemmas cq_eval =
  valid_def cell_def empty_cq_def size_cq_def get_buffer_def get_size_def SIZE_MOD_def
  push_back_def pop_def copy_on_write_def unique_def index_add_def store_at_def
  at_buffer_def deref_def heap_acquire_def front_def back_cq_def subscript_def

section \<open>Ring buffer: the claims\<close>

text \<open>
  Claim C1. Let \<open>q\<close> be an empty ring buffer of capacity \<open>C \<ge> 1\<close> (any state that
  satisfies \<open>valid\<close>, in particular a freshly constructed one). After \<open>C\<close> calls of
  \<^verbatim>\<open>push_back\<close>, with the values \<open>vs\<close>, \<^verbatim>\<open>size()\<close> is \<open>C\<close>. One further
  \<^verbatim>\<open>push_back(x)\<close> leaves \<^verbatim>\<open>size()\<close> at \<open>C\<close>, moves the head on by one slot
  modulo the capacity, and the buffer then holds, oldest first, the second to the last of
  the \<open>C + 1\<close> values pushed: \<^verbatim>\<open>front()\<close> is the second value ever pushed; the first
  one is gone and no other is.
\<close>

theorem push_back_at_capacity_drops_oldest:
  assumes v: "valid q h" and e: "empty_cq q" and l: "length vs = m_capacity q"
  shows "\<exists>q1 h1 q2 h2.
           run (map Push_back vs) q h = Inr ([], q1, h1) \<and>
           size_cq q1 h1 = m_capacity q \<and>
           push_back x q1 h1 = Inr (q2, h2) \<and>
           size_cq q2 h2 = m_capacity q \<and>
           front q2 h2 = Inr ((vs @ [x]) ! 1) \<and>
           m_head q2 = (m_head q1 + 1) mod m_capacity q \<and>
           (\<forall>i < m_capacity q. subscript q2 h2 i = Inr ((vs @ [x]) ! (i + 1)))"
proof -
  let ?C = "m_capacity q"
  have C: "1 \<le> ?C" using v by (simp add: valid_def)
  have el: "elements q h = []" using elements_Nil [OF v] e by (simp add: empty_cq_def)
  have sr: "spec_run ?C (map Push_back vs) (elements q h) = Some ([], vs)"
    using spec_run_pushes [of "[]" vs ?C] l by (simp add: el)
  from run_sim [OF v, of "map Push_back vs"] sr obtain q1 h1 where
    r1: "run (map Push_back vs) q h = Inr ([], q1, h1)" and v1: "valid q1 h1"
    and c1: "m_capacity q1 = ?C" and e1: "elements q1 h1 = vs"
    by auto
  have s1: "size_cq q1 h1 = ?C" using length_elements [OF v1] e1 l by simp
  from push_back_sim [OF v1, of x] obtain q2 h2 where
    pb: "push_back x q1 h1 = Inr (q2, h2)" and v2: "valid q2 h2"
    and c2: "m_capacity q2 = ?C"
    and e2: "elements q2 h2 = spec_push_back ?C x vs"
    and hd2: "m_head q2 = (m_head q1 + 1) mod ?C"
    using c1 e1 s1 by auto
  have e2': "elements q2 h2 = tl vs @ [x]" using e2 l by (simp add: spec_push_back_def)
  have vs: "vs \<noteq> []" using l C by auto
  have "length (tl vs @ [x]) = ?C" using l C by simp
  then have s2: "size_cq q2 h2 = ?C" using length_elements [OF v2] e2' by simp
  have nth: "(tl vs @ [x]) ! i = (vs @ [x]) ! (i + 1)" for i
    using vs by (cases vs) simp_all
  have ne2: "\<not> m_isEmpty q2" using size_cq_0 [OF v2] s2 C by simp
  have f2: "front q2 h2 = Inr ((vs @ [x]) ! 1)"
    using front_valid(1) [OF v2 ne2] e2' nth [of 0] by simp
  have sub: "subscript q2 h2 i = Inr ((vs @ [x]) ! (i + 1))" if "i < ?C" for i
    using subscript_valid(1) [OF v2, of i] that s2 e2' nth [of i] by simp
  show ?thesis using r1 s1 pb s2 f2 hd2 sub by blast
qed

theorem push_back_at_capacity_drops_oldest_witness:
  "circular_queue_ctor 3 (\<lambda>i. 0) [] =
     (\<lparr>m_buffer = 0, m_capacity = 3, m_head = 0, m_tail = 0, m_isEmpty = True\<rparr>,
      [Some ([0, 0, 0 :: nat], 1)]) \<and>
   valid \<lparr>m_buffer = 0, m_capacity = 3, m_head = 0, m_tail = 0, m_isEmpty = True\<rparr>
     [Some ([0, 0, 0 :: nat], 1)] \<and>
   empty_cq \<lparr>m_buffer = 0, m_capacity = 3, m_head = 0, m_tail = 0, m_isEmpty = True\<rparr> \<and>
   (\<exists>q1 h1 q2 h2.
      run (map Push_back [7, 8, 9])
        \<lparr>m_buffer = 0, m_capacity = 3, m_head = 0, m_tail = 0, m_isEmpty = True\<rparr>
        [Some ([0, 0, 0 :: nat], 1)] = Inr ([], q1, h1) \<and>
      size_cq q1 h1 = 3 \<and> push_back 10 q1 h1 = Inr (q2, h2) \<and> size_cq q2 h2 = 3 \<and>
      front q2 h2 = Inr 8)"
proof -
  let ?q = "\<lparr>m_buffer = 0, m_capacity = 3, m_head = 0, m_tail = 0, m_isEmpty = True\<rparr>"
  let ?h = "[Some ([0, 0, 0 :: nat], 1)]"
  have v: "valid ?q ?h" by (simp add: valid_def cell_def)
  have e: "empty_cq ?q" by (simp add: empty_cq_def)
  have l: "length [7, 8, 9 :: nat] = m_capacity ?q" by simp
  have k: "circular_queue_ctor 3 (\<lambda>i. 0) [] = (?q, ?h)"
    by (simp add: circular_queue_ctor_def heap_new_def upt_rec)
  from push_back_at_capacity_drops_oldest [OF v e l, of 10]
  have "\<exists>q1 h1 q2 h2.
      run (map Push_back [7, 8, 9]) ?q ?h = Inr ([], q1, h1) \<and>
      size_cq q1 h1 = 3 \<and> push_back 10 q1 h1 = Inr (q2, h2) \<and> size_cq q2 h2 = 3 \<and>
      front q2 h2 = Inr 8"
    by (simp del: run.simps) blast
  then show ?thesis using k v e by (simp only: simp_thms)
qed

text \<open>
  Claim C3. For a ring buffer holding \<open>n = size()\<close> elements, \<open>n\<close> successive calls of
  \<^verbatim>\<open>pop()\<close> all succeed and return the elements in the order of the indices
  \<open>0, \<dots>, n - 1\<close> of \<^verbatim>\<open>operator[]\<close>, that is oldest first (claim C4 ties the indices
  to the order of insertion). Afterwards the buffer is empty, with head and tail equal, and
  a \<^verbatim>\<open>push_back(x)\<close> then behaves as on an empty buffer: one element, which is both
  front and back.
\<close>

theorem pops_return_oldest_first:
  assumes v: "valid q h"
  shows "\<exists>vs q' h'.
           run (replicate (size_cq q h) Pop) q h = Inr (vs, q', h') \<and>
           map Inr vs = map (subscript q h) [0..<size_cq q h] \<and>
           empty_cq q' \<and> size_cq q' h' = 0 \<and> m_head q' = m_tail q' \<and>
           (\<forall>x. \<exists>q'' h''. push_back x q' h' = Inr (q'', h'') \<and> size_cq q'' h'' = 1 \<and>
                  front q'' h'' = Inr x \<and> back_cq q'' h'' = Inr x \<and> m_head q'' = m_tail q'')"
proof -
  let ?n = "size_cq q h"
  have ln: "length (elements q h) = ?n" using v by (rule length_elements)
  have sr: "spec_run (m_capacity q) (replicate ?n Pop) (elements q h) = Some (elements q h, [])"
    using spec_run_pops [of "m_capacity q" "elements q h"] ln by simp
  from run_sim [OF v, of "replicate ?n Pop"] sr obtain q' h' where
    r: "run (replicate ?n Pop) q h = Inr (elements q h, q', h')" and v': "valid q' h'"
    and c': "m_capacity q' = m_capacity q" and e': "elements q' h' = []"
    by auto
  have m: "map Inr (elements q h) = map (subscript q h) [0..<?n]"
    using ln subscript_valid(1) [OF v] by (intro nth_equalityI) simp_all
  have em: "m_isEmpty q'" using elements_Nil [OF v'] e' by simp
  then have ht: "m_head q' = m_tail q'" using v' by (simp add: valid_def)
  have s0: "size_cq q' h' = 0" using size_cq_0 [OF v'] em by simp
  have C: "1 \<le> m_capacity q'" using v' by (simp add: valid_def)
  have after: "\<exists>q'' h''. push_back x q' h' = Inr (q'', h'') \<and> size_cq q'' h'' = 1 \<and>
                  front q'' h'' = Inr x \<and> back_cq q'' h'' = Inr x \<and> m_head q'' = m_tail q''" for x
  proof -
    from push_back_sim [OF v', of x] obtain q'' h'' where
      pb: "push_back x q' h' = Inr (q'', h'')" and v'': "valid q'' h''"
      and e'': "elements q'' h'' = spec_push_back (m_capacity q') x (elements q' h')"
      and hd'': "m_head q'' = (if size_cq q' h' = m_capacity q'
                               then (m_head q' + 1) mod m_capacity q' else m_head q')"
      by blast
    have el: "elements q'' h'' = [x]" using e'' e' C by (simp add: spec_push_back_def)
    have s1: "size_cq q'' h'' = 1" using length_elements [OF v''] el by simp
    have ne: "\<not> m_isEmpty q''" using size_cq_0 [OF v''] s1 by simp
    have f: "front q'' h'' = Inr x" using front_valid(1) [OF v'' ne] el by simp
    have b: "back_cq q'' h'' = Inr x" using back_valid(1) [OF v'' ne] el s1 by simp
    have "occupancy (m_capacity q'') (m_head q'') (m_tail q'') False = 1"
      using size_cq_valid [OF v''] s1 ne by simp
    moreover have "m_head q'' < m_capacity q''" "m_tail q'' < m_capacity q''"
      using v'' by (simp_all add: valid_def)
    ultimately have "m_head q'' = m_tail q''"
      by (auto simp: occupancy_def split: if_splits)
    then show ?thesis using pb s1 f b by blast
  qed
  show ?thesis using r m em s0 ht after by (auto simp: empty_cq_def)
qed

theorem pops_return_oldest_first_witness:
  "valid \<lparr>m_buffer = 0, m_capacity = 3, m_head = 2, m_tail = 0, m_isEmpty = False\<rparr>
     [Some ([5, 6, 4 :: nat], 1)] \<and>
   (\<exists>vs q' h'.
      run [Pop, Pop] \<lparr>m_buffer = 0, m_capacity = 3, m_head = 2, m_tail = 0, m_isEmpty = False\<rparr>
        [Some ([5, 6, 4 :: nat], 1)] = Inr (vs, q', h') \<and>
      map Inr vs = [Inr 4, Inr 5 :: error + nat] \<and> empty_cq q' \<and> m_head q' = m_tail q')"
proof -
  let ?q = "\<lparr>m_buffer = 0, m_capacity = 3, m_head = 2, m_tail = 0, m_isEmpty = False\<rparr>"
  let ?h = "[Some ([5, 6, 4 :: nat], 1)]"
  have v: "valid ?q ?h" by (simp add: cq_eval)
  have s: "size_cq ?q ?h = 2" by (simp add: cq_eval)
  have r: "replicate 2 Pop = [Pop, Pop]" by (simp add: numeral_2_eq_2)
  have m: "map (subscript ?q ?h) [0..<2] = [Inr 4, Inr 5]"
    by (simp add: cq_eval upt_rec)
  from pops_return_oldest_first [OF v]
  show ?thesis using v unfolding s r m by auto
qed

text \<open>
  Claim C4. Run any sequence of \<^verbatim>\<open>push_back\<close> and \<^verbatim>\<open>pop\<close> calls on an empty ring
  buffer, and run the same sequence on the specification's queue (\<open>spec_run\<close>: a list,
  oldest first, that drops its head when a push finds it at capacity). If the calls
  succeed, they return what the specification returns, \<^verbatim>\<open>size()\<close> is the length of the
  specification's list \<open>xs\<close>, and for every \<open>n < size()\<close> \<^verbatim>\<open>operator[](n)\<close> is
  \<open>xs ! n\<close>, the \<open>n\<close>-th oldest surviving element, read from the slot
  \<open>(head + n) mod capacity\<close> of the storage. Index \<open>0\<close> is \<^verbatim>\<open>front()\<close> and index
  \<open>size() - 1\<close> is \<^verbatim>\<open>back()\<close>.
\<close>

theorem subscript_is_nth_oldest:
  assumes v: "valid q0 h0" and e: "empty_cq q0"
    and r: "run ops q0 h0 = Inr (rs, q, h)" and n: "n < size_cq q h"
  shows "\<exists>xs. spec_run (m_capacity q0) ops [] = Some (rs, xs) \<and>
           size_cq q h = length xs \<and>
           subscript q h n = Inr (xs ! n) \<and>
           subscript q h n = at_buffer ((m_head q + n) mod m_capacity q) (m_buffer q) h \<and>
           front q h = Inr (xs ! 0) \<and> front q h = subscript q h 0 \<and>
           back_cq q h = Inr (xs ! (length xs - 1)) \<and>
           back_cq q h = subscript q h (size_cq q h - 1)"
proof -
  have el: "elements q0 h0 = []" using elements_Nil [OF v] e by (simp add: empty_cq_def)
  have v': "valid q h" using v r by (rule run_valid(1))
  have sr: "spec_run (m_capacity q0) ops [] = Some (rs, elements q h)"
    using run_valid(4) [OF v r] el by simp
  have ln: "size_cq q h = length (elements q h)" using length_elements [OF v'] by simp
  have ne: "\<not> m_isEmpty q" using size_cq_0 [OF v'] n by auto
  show ?thesis
    using sr ln subscript_valid [OF v' n] front_valid [OF v' ne] back_valid [OF v' ne]
    by (intro exI [of _ "elements q h"]) simp
qed

theorem subscript_is_nth_oldest_witness:
  "valid \<lparr>m_buffer = 0, m_capacity = 3, m_head = 0, m_tail = 0, m_isEmpty = True\<rparr>
     [Some ([0, 0, 0 :: nat], 1)] \<and>
   empty_cq \<lparr>m_buffer = 0, m_capacity = 3, m_head = 0, m_tail = 0, m_isEmpty = True\<rparr> \<and>
   run [Push_back 1, Push_back 2, Push_back 3, Push_back 4]
     \<lparr>m_buffer = 0, m_capacity = 3, m_head = 0, m_tail = 0, m_isEmpty = True\<rparr>
     [Some ([0, 0, 0 :: nat], 1)] =
   Inr ([], \<lparr>m_buffer = 0, m_capacity = 3, m_head = 1, m_tail = 0, m_isEmpty = False\<rparr>,
        [Some ([4, 2, 3], 1)]) \<and>
   subscript \<lparr>m_buffer = 0, m_capacity = 3, m_head = 1, m_tail = 0, m_isEmpty = False\<rparr>
     [Some ([4, 2, 3 :: nat], 1)] 2 = Inr 4 \<and>
   front \<lparr>m_buffer = 0, m_capacity = 3, m_head = 1, m_tail = 0, m_isEmpty = False\<rparr>
     [Some ([4, 2, 3 :: nat], 1)] = Inr 2"
proof -
  let ?qa = "\<lparr>m_buffer = 0, m_capacity = 3, m_head = 0, m_tail = 0, m_isEmpty = True\<rparr>"
  let ?ha = "[Some ([0, 0, 0 :: nat], 1)]"
  let ?q = "\<lparr>m_buffer = 0, m_capacity = 3, m_head = 1, m_tail = 0, m_isEmpty = False\<rparr>"
  let ?h = "[Some ([4, 2, 3 :: nat], 1)]"
  let ?ops = "[Push_back 1, Push_back 2, Push_back 3, Push_back (4 :: nat)]"
  have v: "valid ?qa ?ha" by (simp add: cq_eval)
  have e: "empty_cq ?qa" by (simp add: cq_eval)
  have r: "run ?ops ?qa ?ha = Inr ([], ?q, ?h)" by (simp add: cq_eval)
  have n: "2 < size_cq ?q ?h" by (simp add: cq_eval)
  have sp: "spec_run 3 ?ops [] = Some ([], [2, 3, 4])"
    by (simp add: spec_push_back_def)
  from subscript_is_nth_oldest [OF v e r n]
  show ?thesis using v e r by (simp add: sp spec_push_back_def)
qed

text \<open>
  Claim C7. On an empty ring buffer \<^verbatim>\<open>front()\<close>, \<^verbatim>\<open>back()\<close> and \<^verbatim>\<open>pop()\<close> fail
  their assertion, and so does \<^verbatim>\<open>operator[](n)\<close> for \<open>n \<ge> size()\<close>. On a buffer that is
  not empty \<^verbatim>\<open>front()\<close>, \<^verbatim>\<open>back()\<close> and \<^verbatim>\<open>pop()\<close> return a value, and so does
  \<^verbatim>\<open>operator[](n)\<close> for \<open>n < size()\<close>: neither the assertion nor any undefined
  behaviour is reached.
\<close>

theorem precondition_violations_are_fatal:
  assumes v: "valid q h"
  shows "(empty_cq q \<longrightarrow>
            front q h = Inl Assertion_failed \<and> back_cq q h = Inl Assertion_failed \<and>
            pop q h = Inl Assertion_failed) \<and>
         (size_cq q h \<le> n \<longrightarrow> subscript q h n = Inl Assertion_failed) \<and>
         (\<not> empty_cq q \<longrightarrow>
            (\<exists>x. front q h = Inr x) \<and> (\<exists>x. back_cq q h = Inr x) \<and>
            (\<exists>x q' h'. pop q h = Inr (x, q', h'))) \<and>
         (n < size_cq q h \<longrightarrow> (\<exists>x. subscript q h n = Inr x))"
proof -
  have "\<exists>x q' h'. pop q h = Inr (x, q', h')" if "\<not> m_isEmpty q"
    using pop_sim [OF v that] by blast
  then show ?thesis
    using front_empty [of q h] back_empty [of q h] pop_empty [OF v]
      subscript_out_of_range [of q h n] front_valid(1) [OF v] back_valid(1) [OF v]
      subscript_valid(1) [OF v, of n]
    by (auto simp: empty_cq_def)
qed

theorem precondition_violations_are_fatal_witness:
  "valid \<lparr>m_buffer = 0, m_capacity = 2, m_head = 0, m_tail = 0, m_isEmpty = True\<rparr>
     [Some ([0, 0 :: nat], 1)] \<and>
   empty_cq \<lparr>m_buffer = 0, m_capacity = 2, m_head = 0, m_tail = 0, m_isEmpty = True\<rparr> \<and>
   front \<lparr>m_buffer = 0, m_capacity = 2, m_head = 0, m_tail = 0, m_isEmpty = True\<rparr>
     [Some ([0, 0 :: nat], 1)] = Inl Assertion_failed \<and>
   pop \<lparr>m_buffer = 0, m_capacity = 2, m_head = 0, m_tail = 0, m_isEmpty = True\<rparr>
     [Some ([0, 0 :: nat], 1)] = Inl Assertion_failed \<and>
   valid \<lparr>m_buffer = 0, m_capacity = 2, m_head = 1, m_tail = 1, m_isEmpty = False\<rparr>
     [Some ([0, 7 :: nat], 1)] \<and>
   \<not> empty_cq \<lparr>m_buffer = 0, m_capacity = 2, m_head = 1, m_tail = 1, m_isEmpty = False\<rparr> \<and>
   (\<exists>x. front \<lparr>m_buffer = 0, m_capacity = 2, m_head = 1, m_tail = 1, m_isEmpty = False\<rparr>
     [Some ([0, 7 :: nat], 1)] = Inr x) \<and>
   (\<exists>x q' h'. pop \<lparr>m_buffer = 0, m_capacity = 2, m_head = 1, m_tail = 1, m_isEmpty = False\<rparr>
     [Some ([0, 7 :: nat], 1)] = Inr (x, q', h')) \<and>
   (\<exists>x. subscript \<lparr>m_buffer = 0, m_capacity = 2, m_head = 1, m_tail = 1, m_isEmpty = False\<rparr>
     [Some ([0, 7 :: nat], 1)] 0 = Inr x) \<and>
   subscript \<lparr>m_buffer = 0, m_capacity = 2, m_head = 1, m_tail = 1, m_isEmpty = False\<rparr>
     [Some ([0, 7 :: nat], 1)] 1 = Inl Assertion_failed"
proof -
  let ?qe = "\<lparr>m_buffer = 0, m_capacity = 2, m_head = 0, m_tail = 0, m_isEmpty = True\<rparr>"
  let ?he = "[Some ([0, 0 :: nat], 1)]"
  let ?qn = "\<lparr>m_buffer = 0, m_capacity = 2, m_head = 1, m_tail = 1, m_isEmpty = False\<rparr>"
  let ?hn = "[Some ([0, 7 :: nat], 1)]"
  have ve: "valid ?qe ?he" by (simp add: cq_eval)
  have ee: "empty_cq ?qe" by (simp add: cq_eval)
  have vn: "valid ?qn ?hn" by (simp add: cq_eval)
  have en: "\<not> empty_cq ?qn" by (simp add: cq_eval)
  have sn: "size_cq ?qn ?hn = 1" by (simp add: cq_eval)
  from precondition_violations_are_fatal [OF ve, of 0]
    precondition_violations_are_fatal [OF vn, of 0]
    precondition_violations_are_fatal [OF vn, of 1]
  show ?thesis using ve ee vn en unfolding sn by simp
qed

text \<open>
  Claim C8. The copy constructor applied to \<open>src\<close>, and the assignment of \<open>src\<close> to
  another live ring buffer (one that owns another array), produce a buffer with the same
  capacity, emptiness, size, front, back and elements at every index as \<open>src\<close> had,
  and leave what \<open>src\<close> shows unchanged. Whatever sequence of \<^verbatim>\<open>push_back\<close> and
  \<^verbatim>\<open>pop\<close> calls is then applied to the source, the copy shows the same as before; and
  the same with the two exchanged.
\<close>

theorem copy_is_snapshot:
  assumes v: "valid src h"
  shows "(\<exists>cpy h1. circular_queue_copy src h = Inr (cpy, h1) \<and>
            same_view cpy h1 src h \<and> same_view src h1 src h \<and>
            unaffected_by cpy src h1 \<and> unaffected_by src cpy h1) \<and>
         (\<forall>this. valid this h \<and> m_buffer this \<noteq> m_buffer src \<longrightarrow>
            (\<exists>dst h1. assign this src h = Inr (dst, h1) \<and>
               same_view dst h1 src h \<and> same_view src h1 src h \<and>
               unaffected_by dst src h1 \<and> unaffected_by src dst h1))"
proof (intro conjI allI impI)
  have lt: "m_buffer src < length h" using v by (rule valid_buffer_lt)
  from copy_facts [OF v] obtain cpy h1 where
    "circular_queue_copy src h = Inr (cpy, h1)" and
    f: "valid cpy h1" "valid src h1" "m_buffer cpy = length h" "length h1 = Suc (length h)"
      "m_capacity cpy = m_capacity src" "m_head cpy = m_head src"
      "m_tail cpy = m_tail src" "m_isEmpty cpy = m_isEmpty src"
      "cell (m_buffer src) h1 = cell (m_buffer src) h"
      "deref (m_buffer cpy) h1 = deref (m_buffer src) h"
    by blast
  then show "\<exists>cpy h1. circular_queue_copy src h = Inr (cpy, h1) \<and>
            same_view cpy h1 src h \<and> same_view src h1 src h \<and>
            unaffected_by cpy src h1 \<and> unaffected_by src cpy h1"
    using snapshot_independent [OF f(1-4) lt f(5-10)] by blast
next
  fix this :: circular_queue
  assume a: "valid this h \<and> m_buffer this \<noteq> m_buffer src"
  have lt: "m_buffer src < length h" using v by (rule valid_buffer_lt)
  from a assign_facts [OF v, of this] obtain dst h1 where
    "assign this src h = Inr (dst, h1)" and
    f: "valid dst h1" "valid src h1" "m_buffer dst = length h" "length h1 = Suc (length h)"
      "m_capacity dst = m_capacity src" "m_head dst = m_head src"
      "m_tail dst = m_tail src" "m_isEmpty dst = m_isEmpty src"
      "cell (m_buffer src) h1 = cell (m_buffer src) h"
      "deref (m_buffer dst) h1 = deref (m_buffer src) h"
    by blast
  then show "\<exists>dst h1. assign this src h = Inr (dst, h1) \<and>
               same_view dst h1 src h \<and> same_view src h1 src h \<and>
               unaffected_by dst src h1 \<and> unaffected_by src dst h1"
    using snapshot_independent [OF f(1-4) lt f(5-10)] by blast
qed

theorem copy_is_snapshot_witness:
  "valid \<lparr>m_buffer = 0, m_capacity = 2, m_head = 0, m_tail = 0, m_isEmpty = False\<rparr>
     [Some ([5, 0 :: nat], 1), Some ([9, 9], 1)] \<and>
   valid \<lparr>m_buffer = 1, m_capacity = 2, m_head = 0, m_tail = 1, m_isEmpty = False\<rparr>
     [Some ([5, 0 :: nat], 1), Some ([9, 9], 1)] \<and>
   (\<exists>cpy h1.
      circular_queue_copy
        \<lparr>m_buffer = 0, m_capacity = 2, m_head = 0, m_tail = 0, m_isEmpty = False\<rparr>
        [Some ([5, 0 :: nat], 1), Some ([9, 9], 1)] = Inr (cpy, h1) \<and>
      front cpy h1 = Inr 5 \<and>
      (\<forall>rs src' h2.
         run [Push_back 6, Pop]
           \<lparr>m_buffer = 0, m_capacity = 2, m_head = 0, m_tail = 0, m_isEmpty = False\<rparr> h1 =
           Inr (rs, src', h2) \<longrightarrow> front cpy h2 = Inr 5)) \<and>
   (\<exists>dst h1.
      assign \<lparr>m_buffer = 1, m_capacity = 2, m_head = 0, m_tail = 1, m_isEmpty = False\<rparr>
        \<lparr>m_buffer = 0, m_capacity = 2, m_head = 0, m_tail = 0, m_isEmpty = False\<rparr>
        [Some ([5, 0 :: nat], 1), Some ([9, 9], 1)] = Inr (dst, h1) \<and>
      front dst h1 = Inr 5 \<and> size_cq dst h1 = 1)"
proof -
  let ?src = "\<lparr>m_buffer = 0, m_capacity = 2, m_head = 0, m_tail = 0, m_isEmpty = False\<rparr>"
  let ?old = "\<lparr>m_buffer = 1, m_capacity = 2, m_head = 0, m_tail = 1, m_isEmpty = False\<rparr>"
  let ?h = "[Some ([5, 0 :: nat], 1), Some ([9, 9], 1)]"
  have v: "valid ?src ?h" by (simp add: cq_eval)
  have t: "valid ?old ?h \<and> m_buffer ?old \<noteq> m_buffer ?src" by (simp add: cq_eval)
  have f: "front ?src ?h = Inr 5" by (simp add: cq_eval)
  have s: "size_cq ?src ?h = 1" by (simp add: cq_eval)
  note main = copy_is_snapshot [OF v]
  from main obtain cpy h1 where
    c: "circular_queue_copy ?src ?h = Inr (cpy, h1)"
    and sv: "same_view cpy h1 ?src ?h" and ua: "unaffected_by cpy ?src h1"
    by blast
  have fc: "front cpy h1 = Inr 5" using sv f by (simp add: same_view_def)
  have fr: "\<forall>rs src' h2. run [Push_back 6, Pop] ?src h1 = Inr (rs, src', h2) \<longrightarrow>
              front cpy h2 = Inr 5"
  proof (intro allI impI)
    fix rs src' h2
    assume "run [Push_back 6, Pop] ?src h1 = Inr (rs, src', h2)"
    with ua have "same_view cpy h2 cpy h1" unfolding unaffected_by_def by blast
    then show "front cpy h2 = Inr 5" using fc by (simp add: same_view_def)
  qed
  from main t obtain dst h1' where
    a: "assign ?old ?src ?h = Inr (dst, h1')" and sv': "same_view dst h1' ?src ?h"
    by blast
  have fd: "front dst h1' = Inr 5" "size_cq dst h1' = 1"
    using sv' f s by (simp_all add: same_view_def)
  show ?thesis using v t c fc fr a fd by blast
qed

section \<open>Bounded cache: basic facts\<close>

lemma fold_max_ge: "(b::nat) \<le> fold max xs b"
  by (induction xs arbitrary: b) (auto intro: order_trans [OF max.cobounded2])

lemma fold_max_member: "(x::nat) \<in> set xs \<Longrightarrow> x \<le> fold max xs b"
proof (induction xs arbitrary: b)
  case Nil
  then show ?case by simp
next
  case (Cons y ys)
  show ?case
  proof (cases "x = y")
    case True
    have "max y b \<le> fold max ys (max y b)" by (rule fold_max_ge)
    then show ?thesis using True by simp
  next
    case False
    then show ?thesis using Cons by simp
  qed
qed

lemma new_node_fresh: "new_node l \<notin> fst ` set l"
proof
  assume "new_node l \<in> fst ` set l"
  then have "new_node l \<in> set (map fst l)" by simp
  then have "new_node l \<le> fold max (map fst l) 0" by (rule fold_max_member)
  then show False by (simp add: new_node_def)
qed

lemma entries_simps [simp]:
  "entries [] = []"
  "entries (n # l) = (fst (snd n), fst n) # entries l"
  "entries (l @ l') = entries l @ entries l'"
  by (simp_all add: entries_def)

lemma length_entries [simp]: "length (entries l) = length l"
  by (simp add: entries_def)

lemma addrs_entries: "snd ` set (entries l) = fst ` set l"
  by (force simp: entries_def)

lemma mset_entries: "mset l' = mset l \<Longrightarrow> mset (entries l') = mset (entries l)"
  by (simp add: entries_def)

lemma find_node_Some:
  "find_node it l = Some n \<Longrightarrow> n \<in> set l \<and> fst n = it"
  by (auto simp: find_node_def find_Some_iff)

lemma find_node_None: "(find_node it l = None) = (it \<notin> fst ` set l)"
  by (force simp: find_node_def find_None_iff)

lemma find_node_distinct:
  "distinct (map fst l) \<Longrightarrow> n \<in> set l \<Longrightarrow> find_node (fst n) l = Some n"
  by (induction l) (auto simp: find_node_def rev_image_eqI)

lemma update_fresh_key:
  "k \<notin> fst ` set al \<Longrightarrow> AList.update k v al = al @ [(k, v)]"
  by (induction al) auto

lemma map_of_None_keys: "(map_of al k = None) = (k \<notin> fst ` set al)"
  by (simp add: map_of_eq_None_iff)

lemma consistent_length: "consistent c \<Longrightarrow> length (m_hash_table c) = length (m_list c)"
proof -
  assume c: "consistent c"
  then have d1: "distinct (m_hash_table c)" and d2: "distinct (entries (m_list c))"
    and s: "set (m_hash_table c) = set (entries (m_list c))"
    by (auto simp: consistent_def distinct_map)
  have "length (m_hash_table c) = card (set (m_hash_table c))"
    using d1 by (simp add: distinct_card)
  also have "\<dots> = card (set (entries (m_list c)))" using s by simp
  also have "\<dots> = length (entries (m_list c))" using d2 by (simp add: distinct_card)
  finally show ?thesis by simp
qed

lemma consistent_lookup:
  assumes c: "consistent c" and m: "map_of (m_hash_table c) key = Some it"
  shows "\<exists>v. find_node it (m_list c) = Some (it, key, v) \<and> (it, key, v) \<in> set (m_list c)"
proof -
  have "(key, it) \<in> set (m_hash_table c)" using m by (rule map_of_SomeD)
  then have "(key, it) \<in> set (entries (m_list c))" using c by (simp add: consistent_def)
  then obtain n where n: "n \<in> set (m_list c)" "fst (snd n) = key" "fst n = it"
    by (auto simp: entries_def)
  have d: "distinct (map fst (m_list c))"
    using c by (simp add: consistent_def entries_def comp_def)
  have "find_node (fst n) (m_list c) = Some n" using d n(1) by (rule find_node_distinct)
  moreover have "n = (it, key, snd (snd n))" using n(2,3) by (cases n) auto
  ultimately show ?thesis using n by (intro exI [of _ "snd (snd n)"]) auto
qed

lemma consistent_absent:
  assumes c: "consistent c" and m: "map_of (m_hash_table c) key = None"
  shows "key \<notin> fst ` set (entries (m_list c))"
  using c m by (simp add: consistent_def map_of_None_keys)

lemma consistent_cong:
  assumes "consistent c" "m_hash_table c' = m_hash_table c"
    "mset (entries (m_list c')) = mset (entries (m_list c))"
  shows "consistent c'"
proof -
  have s: "set (entries (m_list c')) = set (entries (m_list c))"
    using assms(3) by (rule mset_eq_setD)
  have "mset (map fst (entries (m_list c'))) = mset (map fst (entries (m_list c)))"
    using assms(3) by simp
  then have d1: "distinct (map fst (entries (m_list c'))) = distinct (map fst (entries (m_list c)))"
    by (rule mset_eq_imp_distinct_iff)
  have "mset (map snd (entries (m_list c'))) = mset (map snd (entries (m_list c)))"
    using assms(3) by simp
  then have d2: "distinct (map snd (entries (m_list c'))) = distinct (map snd (entries (m_list c)))"
    by (rule mset_eq_imp_distinct_iff)
  show ?thesis using assms(1,2) s d1 d2 by (simp add: consistent_def)
qed

lemma splice_begin_Some:
  assumes "find_node it l = Some n"
  shows "splice_begin it l = Inr (n # remove1 n l)" "mset (n # remove1 n l) = mset l"
proof -
  show "splice_begin it l = Inr (n # remove1 n l)" using assms by (simp add: splice_begin_def)
  have "n \<in> set l" using assms by (auto dest: find_node_Some)
  then show "mset (n # remove1 n l) = mset l" by simp
qed

lemma set_node_value_Some:
  assumes d: "distinct (map fst l)" and f: "find_node it l = Some (it, k, v)"
  shows "\<exists>l1. set_node_value it value l = Inr l1 \<and> entries l1 = entries l \<and>
           length l1 = length l \<and> find_node it l1 = Some (it, k, value) \<and>
           remove1 (it, k, value) l1 = remove1 (it, k, v) l"
proof -
  let ?f = "\<lambda>m. if fst m = it then (fst m, fst (snd m), value) else m"
  have eq: "set_node_value it value l = Inr (map ?f l)"
    using f by (simp add: set_node_value_def)
  have en: "entries (map ?f l) = entries l" by (simp add: entries_def comp_def)
  have e: "map fst (map ?f l) = map fst l" by (induction l) auto
  have d': "distinct (map fst (map ?f l))" unfolding e by (rule d)
  have mem: "(it, k, v) \<in> set l" using f by (auto dest: find_node_Some)
  then have "(it, k, value) \<in> set (map ?f l)" by force
  then have fn: "find_node it (map ?f l) = Some (it, k, value)"
    using find_node_distinct [OF d', of "(it, k, value)"] by simp
  have "remove1 (it, k, value) (map ?f l) = remove1 (it, k, v) l"
    using d mem
  proof (induction l)
    case Nil
    then show ?case by simp
  next
    case (Cons a l)
    show ?case
    proof (cases "fst a = it")
      case True
      then have a: "a = (it, k, v)" using Cons.prems by (auto simp: rev_image_eqI)
      have "it \<notin> fst ` set l" using Cons.prems(1) True by auto
      then have "map ?f l = l" by (intro map_idI) auto
      then show ?thesis using a by simp
    next
      case False
      then have "a \<noteq> (it, k, v)" "a \<noteq> (it, k, value)" by auto
      then show ?thesis using Cons False by auto
    qed
  qed
  then show ?thesis using eq en fn by (intro exI [of _ "map ?f l"]) simp
qed

lemma push_entry_new:
  assumes c: "consistent c" and m: "map_of (m_hash_table c) key = None"
  shows "push_entry key value c =
           Inr (c\<lparr>m_list := (new_node (m_list c), key, value) # m_list c,
                  m_hash_table := m_hash_table c @ [(key, new_node (m_list c))]\<rparr>)"
    and "consistent (c\<lparr>m_list := (new_node (m_list c), key, value) # m_list c,
                  m_hash_table := m_hash_table c @ [(key, new_node (m_list c))]\<rparr>)"
proof -
  have k: "key \<notin> fst ` set (m_hash_table c)" using m by (simp add: map_of_None_keys)
  show "push_entry key value c =
           Inr (c\<lparr>m_list := (new_node (m_list c), key, value) # m_list c,
                  m_hash_table := m_hash_table c @ [(key, new_node (m_list c))]\<rparr>)"
    using m by (simp add: push_entry_def Let_def update_fresh_key [OF k])
  have k': "key \<notin> fst ` set (entries (m_list c))" using c m by (rule consistent_absent)
  have n: "new_node (m_list c) \<notin> snd ` set (entries (m_list c))"
    using new_node_fresh [of "m_list c"] by (simp add: addrs_entries)
  show "consistent (c\<lparr>m_list := (new_node (m_list c), key, value) # m_list c,
                  m_hash_table := m_hash_table c @ [(key, new_node (m_list c))]\<rparr>)"
    using c k k' n by (auto simp: consistent_def)
qed

lemma push_entry_existing:
  assumes c: "consistent c" and m: "map_of (m_hash_table c) key = Some it"
  shows "\<exists>v. find_node it (m_list c) = Some (it, key, v) \<and>
           push_entry key value c =
             Inr (c\<lparr>m_list := (it, key, value) # remove1 (it, key, v) (m_list c)\<rparr>) \<and>
           consistent (c\<lparr>m_list := (it, key, value) # remove1 (it, key, v) (m_list c)\<rparr>)"
proof -
  from consistent_lookup [OF c m] obtain v where
    f: "find_node it (m_list c) = Some (it, key, v)" and mem: "(it, key, v) \<in> set (m_list c)"
    by blast
  have d: "distinct (map fst (m_list c))"
    using c by (simp add: consistent_def entries_def comp_def)
  from set_node_value_Some [OF d f, of "value"] obtain l1 where
    s: "set_node_value it value (m_list c) = Inr l1" and e1: "entries l1 = entries (m_list c)"
    and f1: "find_node it l1 = Some (it, key, value)"
    and r1: "remove1 (it, key, value) l1 = remove1 (it, key, v) (m_list c)"
    by blast
  let ?l2 = "(it, key, value) # remove1 (it, key, v) (m_list c)"
  have eq: "push_entry key value c = Inr (c\<lparr>m_list := ?l2\<rparr>)"
    using m s splice_begin_Some(1) [OF f1] r1 by (simp add: push_entry_def)
  have "mset ((it, key, value) # remove1 (it, key, value) l1) = mset l1"
    using f1 by (rule splice_begin_Some(2))
  then have a: "mset (entries ?l2) = mset (entries l1)" unfolding r1 by (rule mset_entries)
  have sel: "m_list (c\<lparr>m_list := ?l2\<rparr>) = ?l2" by simp
  have b: "mset (entries (m_list (c\<lparr>m_list := ?l2\<rparr>))) = mset (entries (m_list c))"
    unfolding sel e1 [symmetric] by (rule a)
  have h: "m_hash_table (c\<lparr>m_list := ?l2\<rparr>) = m_hash_table c" by simp
  have "consistent (c\<lparr>m_list := ?l2\<rparr>)" using c h b by (rule consistent_cong)
  then show ?thesis using f eq by (intro exI [of _ v]) simp
qed

lemma push_entry_consistent:
  assumes c: "consistent c"
  shows "\<exists>c1. push_entry key value c = Inr c1 \<and> consistent c1 \<and> m_list c1 \<noteq> [] \<and>
           m_max_size c1 = m_max_size c \<and> m_max_memory_size c1 = m_max_memory_size c \<and>
           m_stats c1 = m_stats c \<and> length (m_list c1) \<le> Suc (length (m_list c))"
proof (cases "map_of (m_hash_table c) key")
  case None
  show ?thesis using push_entry_new [OF c None, of "value"] by simp
next
  case (Some it)
  from push_entry_existing [OF c Some, of "value"] obtain v where
    "push_entry key value c =
       Inr (c\<lparr>m_list := (it, key, value) # remove1 (it, key, v) (m_list c)\<rparr>)"
    "consistent (c\<lparr>m_list := (it, key, value) # remove1 (it, key, v) (m_list c)\<rparr>)"
    by blast
  moreover have "length (remove1 (it, key, v) (m_list c)) \<le> length (m_list c)"
    by (simp add: length_remove1)
  ultimately show ?thesis by simp
qed

lemma discard_one_elem_consistent:
  assumes c: "consistent c" and ne: "m_list c \<noteq> []"
  shows "discard_one_elem c =
           Inr (c\<lparr>m_hash_table := AList.delete (fst (snd (last (m_list c)))) (m_hash_table c),
                  m_list := butlast (m_list c)\<rparr>)"
    and "consistent (c\<lparr>m_hash_table := AList.delete (fst (snd (last (m_list c)))) (m_hash_table c),
                  m_list := butlast (m_list c)\<rparr>)"
    and "set (AList.delete (fst (snd (last (m_list c)))) (m_hash_table c)) =
         set (m_hash_table c) - {(fst (snd (last (m_list c))), fst (last (m_list c)))}"
    and "length (AList.delete (fst (snd (last (m_list c)))) (m_hash_table c)) =
         length (m_hash_table c) - 1"
proof -
  let ?n = "last (m_list c)"
  let ?k = "fst (snd ?n)"
  let ?b = "butlast (m_list c)"
  let ?c' = "c\<lparr>m_hash_table := AList.delete ?k (m_hash_table c), m_list := ?b\<rparr>"
  show eq: "discard_one_elem c = Inr ?c'" using ne by (simp add: discard_one_elem_def Let_def)
  have l: "m_list c = ?b @ [?n]" using ne by simp
  have en: "entries (m_list c) = entries ?b @ [(?k, fst ?n)]"
    using arg_cong [OF l, of entries] by simp
  from c have dk: "distinct (map fst (entries (m_list c)))"
    and da: "distinct (map snd (entries (m_list c)))"
    and dh: "distinct (map fst (m_hash_table c))"
    and s: "set (m_hash_table c) = set (entries (m_list c))"
    by (simp_all add: consistent_def)
  have kb: "?k \<notin> fst ` set (entries ?b)" and dkb: "distinct (map fst (entries ?b))"
    using dk unfolding en by auto
  have dab: "distinct (map snd (entries ?b))" using da unfolding en by auto
  have kb': "(?k, b) \<notin> set (entries ?b)" for b
    using kb by force
  have "set (AList.delete ?k (m_hash_table c)) = {p \<in> set (m_hash_table c). fst p \<noteq> ?k}"
    by (auto simp: AList.delete_eq)
  also have "\<dots> = set (entries ?b)"
    unfolding s en using kb by force
  finally have sd: "set (AList.delete ?k (m_hash_table c)) = set (entries ?b)" .
  show cons: "consistent ?c'"
    using dkb dab sd dh by (simp add: consistent_def distinct_delete)
  show "set (AList.delete ?k (m_hash_table c)) = set (m_hash_table c) - {(?k, fst ?n)}"
    unfolding sd s en using kb' by auto
  have "length (m_hash_table ?c') = length (m_list ?c')" using cons by (rule consistent_length)
  then show "length (AList.delete ?k (m_hash_table c)) = length (m_hash_table c) - 1"
    using consistent_length [OF c] by simp
qed

lemma get_absent:
  assumes "map_of (m_hash_table c) key = None"
  shows "get key value c =
           Inr (False, value,
                c\<lparr>m_stats := (m_stats c)\<lparr>m_get_cnt := (m_get_cnt (m_stats c) + 1) mod SIZE_MOD\<rparr>\<rparr>)"
  using assms by (simp add: get_def Let_def)

lemma get_present:
  assumes c: "consistent c" and m: "map_of (m_hash_table c) key = Some it"
  shows "\<exists>v. (it, key, v) \<in> set (m_list c) \<and>
           get key value c =
             Inr (True, v,
                  c\<lparr>m_list := (it, key, v) # remove1 (it, key, v) (m_list c),
                    m_stats := \<lparr>m_get_cnt = (m_get_cnt (m_stats c) + 1) mod SIZE_MOD,
                                m_hit_cnt = (m_hit_cnt (m_stats c) + 1) mod SIZE_MOD\<rparr>\<rparr>) \<and>
           consistent (c\<lparr>m_list := (it, key, v) # remove1 (it, key, v) (m_list c),
                    m_stats := \<lparr>m_get_cnt = (m_get_cnt (m_stats c) + 1) mod SIZE_MOD,
                                m_hit_cnt = (m_hit_cnt (m_stats c) + 1) mod SIZE_MOD\<rparr>\<rparr>)"
proof -
  from consistent_lookup [OF c m] obtain v where
    f: "find_node it (m_list c) = Some (it, key, v)" and mem: "(it, key, v) \<in> set (m_list c)"
    by blast
  let ?l = "(it, key, v) # remove1 (it, key, v) (m_list c)"
  let ?c' = "c\<lparr>m_list := ?l,
               m_stats := \<lparr>m_get_cnt = (m_get_cnt (m_stats c) + 1) mod SIZE_MOD,
                           m_hit_cnt = (m_hit_cnt (m_stats c) + 1) mod SIZE_MOD\<rparr>\<rparr>"
  have sp: "splice_begin it (m_list c) = Inr ?l" using f by (rule splice_begin_Some(1))
  have nv: "node_value it ?l = Inr v" by (simp add: node_value_def find_node_def)
  have eq: "get key value c = Inr (True, v, ?c')"
    using m by (simp add: get_def Let_def sp nv)
  have ms: "mset ?l = mset (m_list c)" using f by (rule splice_begin_Some(2))
  have sel: "m_list ?c' = ?l" by simp
  have b: "mset (entries (m_list ?c')) = mset (entries (m_list c))"
    unfolding sel using ms by (rule mset_entries)
  have h: "m_hash_table ?c' = m_hash_table c" by simp
  have "consistent ?c'" using c h b by (rule consistent_cong)
  then show ?thesis using mem eq by (intro exI [of _ v]) simp
qed

lemma exists_lru_iff: "exists_lru key c = (map_of (m_hash_table c) key \<noteq> None)"
  by (simp add: exists_lru_def split: option.splits)

lemma push_bounded:
  assumes c: "consistent c" and b: "get_cache_size c \<le> m_max_size c"
  shows "\<exists>c'. push sz key value c = Inr c' \<and> consistent c' \<and>
           get_cache_size c' \<le> m_max_size c' \<and> m_max_size c' = m_max_size c \<and>
           m_max_memory_size c' = m_max_memory_size c"
proof -
  from push_entry_consistent [OF c, of key "value"] obtain c1 where
    pe: "push_entry key value c = Inr c1" and c1: "consistent c1" and ne: "m_list c1 \<noteq> []"
    and f: "m_max_size c1 = m_max_size c" "m_max_memory_size c1 = m_max_memory_size c"
    and le: "length (m_list c1) \<le> Suc (length (m_list c))"
    by blast
  have s1: "get_cache_size c1 \<le> Suc (m_max_size c)"
    using le b consistent_length [OF c] consistent_length [OF c1]
    by (simp add: get_cache_size_def)
  let ?k = "fst (snd (last (m_list c1)))"
  let ?c2 = "c1\<lparr>m_hash_table := AList.delete ?k (m_hash_table c1), m_list := butlast (m_list c1)\<rparr>"
  note d = discard_one_elem_consistent [OF c1 ne]
  have p: "push sz key value c = (if over_budget sz c1 then Inr ?c2 else Inr c1)"
    using pe d(1) by (simp add: push_def over_budget_def)
  show ?thesis
  proof (cases "over_budget sz c1")
    case True
    have "get_cache_size ?c2 \<le> m_max_size ?c2"
      using d(4) s1 f by (simp add: get_cache_size_def)
    then show ?thesis using p True d(2) f by (intro exI [of _ ?c2]) simp
  next
    case False
    then have "get_cache_size c1 \<le> m_max_size c1" by (simp add: over_budget_def)
    then show ?thesis using p False c1 f by (intro exI [of _ c1]) simp
  qed
qed

lemma get_bounded:
  assumes c: "consistent c" and b: "get_cache_size c \<le> m_max_size c"
  shows "\<exists>found v c'. get key value c = Inr (found, v, c') \<and> consistent c' \<and>
           get_cache_size c' \<le> m_max_size c' \<and> m_max_size c' = m_max_size c \<and>
           m_max_memory_size c' = m_max_memory_size c"
proof (cases "map_of (m_hash_table c) key")
  case None
  show ?thesis using get_absent [OF None, of "value"] c b
    by (auto simp: consistent_def get_cache_size_def)
next
  case (Some it)
  from get_present [OF c Some, of "value"] obtain v c' where
    "get key value c = Inr (True, v, c')" "consistent c'"
    "c' = c\<lparr>m_list := (it, key, v) # remove1 (it, key, v) (m_list c),
            m_stats := \<lparr>m_get_cnt = (m_get_cnt (m_stats c) + 1) mod SIZE_MOD,
                        m_hit_cnt = (m_hit_cnt (m_stats c) + 1) mod SIZE_MOD\<rparr>\<rparr>"
    by blast
  then show ?thesis using b by (intro exI [of _ True] exI [of _ v] exI [of _ c'])
      (simp add: get_cache_size_def)
qed

lemma lru_step_bounded:
  assumes c: "consistent c" and b: "get_cache_size c \<le> m_max_size c"
  shows "\<exists>c'. lru_step sz x c = Inr c' \<and> consistent c' \<and>
           get_cache_size c' \<le> m_max_size c' \<and> m_max_size c' = m_max_size c \<and>
           m_max_memory_size c' = m_max_memory_size c"
proof (cases x)
  case (Push key v)
  then show ?thesis using push_bounded [OF c b, of sz key v] by simp
next
  case (Get key v)
  from get_bounded [OF c b, of key v] obtain found v' c' where
    "get key v c = Inr (found, v', c')" "consistent c'" "get_cache_size c' \<le> m_max_size c'"
    "m_max_size c' = m_max_size c" "m_max_memory_size c' = m_max_memory_size c"
    by blast
  then show ?thesis using Get by simp
next
  case (Exists key)
  then show ?thesis using c b by (simp split: bool.splits)
next
  case Reset_stats
  then show ?thesis using c b
    by (simp add: reset_stats_def consistent_def get_cache_size_def)
qed

lemma lru_run_bounded:
  assumes "consistent c" "get_cache_size c \<le> m_max_size c"
  shows "\<exists>c'. lru_run sz ops c = Inr c' \<and> consistent c' \<and>
           get_cache_size c' \<le> m_max_size c' \<and> m_max_size c' = m_max_size c \<and>
           m_max_memory_size c' = m_max_memory_size c"
  using assms
proof (induction ops arbitrary: c)
  case Nil
  then show ?case by simp
next
  case (Cons x ops)
  from lru_step_bounded [OF Cons.prems, of sz x] obtain c1 where
    s: "lru_step sz x c = Inr c1" and c1: "consistent c1"
    and b1: "get_cache_size c1 \<le> m_max_size c1"
    and f: "m_max_size c1 = m_max_size c" "m_max_memory_size c1 = m_max_memory_size c"
    by blast
  from Cons.IH [OF c1 b1] show ?case using s f by auto
qed

lemma ctor_consistent:
  "consistent (LRU_cache_ctor2 N M)" "get_cache_size (LRU_cache_ctor2 N M) \<le> m_max_size (LRU_cache_ctor2 N M)"
  "m_max_size (LRU_cache_ctor2 N M) = N" "LRU_cache_ctor N = LRU_cache_ctor2 N 0"
  by (simp_all add: consistent_def LRU_cache_ctor2_def LRU_cache_ctor_def get_cache_size_def)

lemma lru_run_consistent:
  "\<exists>c. lru_run sz ops (LRU_cache_ctor2 N M) = Inr c \<and> consistent c"
  using lru_run_bounded [OF ctor_consistent(1,2), of sz ops N M] by blast

lemma reset_stats_frame:
  "m_list (reset_stats c) = m_list c" "m_hash_table (reset_stats c) = m_hash_table c"
  "m_max_size (reset_stats c) = m_max_size c"
  "m_max_memory_size (reset_stats c) = m_max_memory_size c"
  "m_get_cnt (m_stats (reset_stats c)) = 0" "m_hit_cnt (m_stats (reset_stats c)) = 0"
  by (simp_all add: reset_stats_def)

lemmas lru_eval =
  consistent_def entries_def push_def push_entry_def get_def discard_one_elem_def
  get_cache_size_def get_memory_size_def new_node_def set_node_value_def splice_begin_def
  node_value_def find_node_def exists_lru_def over_budget_def SIZE_MOD_def Let_def

section \<open>Bounded cache: the claims\<close>

text \<open>
  Claim C2. On a cache \<open>c\<close> whose list and index agree, \<^verbatim>\<open>push\<close> first stores the
  pair, which gives the state \<open>c1\<close>: for a new key, \<open>c\<close> with a new node for the pair
  at the front of the list and the key indexed to it; for a key already there, \<open>c\<close>
  with the key's node, now holding the new value, moved to the front of the list, the
  order of the other nodes kept. Nothing is removed by this step, and the list of
  \<open>c1\<close> is never empty. Then \<^verbatim>\<open>push\<close> tests once whether the number of entries
  exceeds \<^verbatim>\<open>m_max_size\<close>, or \<^verbatim>\<open>m_max_memory_size\<close> is not zero and the number of
  entries times \<^verbatim>\<open>sizeof(value_type)\<close> (a product in \<^verbatim>\<open>size_t\<close>, equal to the
  mathematical product whenever that is below \<open>2 ^ 64\<close>) exceeds it. If so, the result is
  \<open>c1\<close> without the last node of the list and without that node's entry of the index,
  one entry fewer and nothing else changed; otherwise the result is \<open>c1\<close>. So a
  \<^verbatim>\<open>push\<close> leaves the cache with at most one entry fewer than it found, whatever the
  budgets are.
\<close>

theorem push_evicts_exactly_the_tail:
  assumes c: "consistent c"
  shows "\<exists>c1. push_entry key value c = Inr c1 \<and>
           (case map_of (m_hash_table c) key of
              None \<Rightarrow>
                c1 = c\<lparr>m_list := (new_node (m_list c), key, value) # m_list c,
                       m_hash_table := AList.update key (new_node (m_list c)) (m_hash_table c)\<rparr> \<and>
                new_node (m_list c) \<notin> fst ` set (m_list c) \<and>
                get_cache_size c1 = Suc (get_cache_size c)
            | Some ite \<Rightarrow>
                (\<exists>v. (ite, key, v) \<in> set (m_list c) \<and>
                   c1 = c\<lparr>m_list := (ite, key, value) # remove1 (ite, key, v) (m_list c)\<rparr>) \<and>
                get_cache_size c1 = get_cache_size c) \<and>
           length (m_list c1) = get_cache_size c1 \<and>
           length (m_list c) = get_cache_size c \<and>
           consistent c1 \<and> m_list c1 \<noteq> [] \<and>
           (if over_budget sz c1
            then \<exists>c2. push sz key value c = Inr c2 \<and>
                   c2 = c1\<lparr>m_hash_table :=
                            AList.delete (fst (snd (last (m_list c1)))) (m_hash_table c1),
                          m_list := butlast (m_list c1)\<rparr> \<and>
                   m_list c2 = butlast (m_list c1) \<and>
                   set (m_hash_table c2) =
                     set (m_hash_table c1) -
                       {(fst (snd (last (m_list c1))), fst (last (m_list c1)))} \<and>
                   get_cache_size c2 = get_cache_size c1 - 1 \<and>
                   length (m_list c2) = length (m_list c1) - 1 \<and>
                   \<not> exists_lru (fst (snd (last (m_list c1)))) c2 \<and>
                   m_max_size c2 = m_max_size c \<and>
                   m_max_memory_size c2 = m_max_memory_size c \<and>
                   m_stats c2 = m_stats c \<and> consistent c2 \<and>
                   get_cache_size c \<le> Suc (get_cache_size c2)
            else push sz key value c = Inr c1) \<and>
           (get_cache_size c1 * sz < SIZE_MOD \<longrightarrow>
              get_memory_size sz c1 = get_cache_size c1 * sz)"
proof -
  let ?shape = "\<lambda>c1. case map_of (m_hash_table c) key of
              None \<Rightarrow>
                c1 = c\<lparr>m_list := (new_node (m_list c), key, value) # m_list c,
                       m_hash_table := AList.update key (new_node (m_list c)) (m_hash_table c)\<rparr> \<and>
                new_node (m_list c) \<notin> fst ` set (m_list c) \<and>
                get_cache_size c1 = Suc (get_cache_size c)
            | Some ite \<Rightarrow>
                (\<exists>v. (ite, key, v) \<in> set (m_list c) \<and>
                   c1 = c\<lparr>m_list := (ite, key, value) # remove1 (ite, key, v) (m_list c)\<rparr>) \<and>
                get_cache_size c1 = get_cache_size c"
  have "\<exists>c1. push_entry key value c = Inr c1 \<and> ?shape c1 \<and> consistent c1 \<and>
          m_list c1 \<noteq> [] \<and> m_max_size c1 = m_max_size c \<and>
          m_max_memory_size c1 = m_max_memory_size c \<and> m_stats c1 = m_stats c"
  proof (cases "map_of (m_hash_table c) key")
    case None
    have k: "key \<notin> fst ` set (m_hash_table c)" using None by (simp add: map_of_None_keys)
    let ?c1 = "c\<lparr>m_list := (new_node (m_list c), key, value) # m_list c,
                m_hash_table := AList.update key (new_node (m_list c)) (m_hash_table c)\<rparr>"
    have e: "?c1 = c\<lparr>m_list := (new_node (m_list c), key, value) # m_list c,
                    m_hash_table := m_hash_table c @ [(key, new_node (m_list c))]\<rparr>"
      by (simp add: update_fresh_key [OF k])
    have p: "push_entry key value c = Inr ?c1"
      unfolding e using c None by (rule push_entry_new(1))
    have c1: "consistent ?c1" unfolding e using c None by (rule push_entry_new(2))
    have g: "get_cache_size ?c1 = Suc (get_cache_size c)"
      unfolding e by (simp add: get_cache_size_def)
    show ?thesis
      using p c1 g None new_node_fresh [of "m_list c"]
      by (intro exI [of _ ?c1]) simp
  next
    case (Some ite)
    from push_entry_existing [OF c Some, of "value"] obtain v where
      f: "find_node ite (m_list c) = Some (ite, key, v)"
      and p: "push_entry key value c =
                Inr (c\<lparr>m_list := (ite, key, value) # remove1 (ite, key, v) (m_list c)\<rparr>)"
      and c1: "consistent (c\<lparr>m_list := (ite, key, value) # remove1 (ite, key, v) (m_list c)\<rparr>)"
      by blast
    let ?c1 = "c\<lparr>m_list := (ite, key, value) # remove1 (ite, key, v) (m_list c)\<rparr>"
    have mem: "(ite, key, v) \<in> set (m_list c)" using f by (auto dest: find_node_Some)
    have g: "get_cache_size ?c1 = get_cache_size c" by (simp add: get_cache_size_def)
    have sh: "\<exists>v. (ite, key, v) \<in> set (m_list c) \<and>
                ?c1 = c\<lparr>m_list := (ite, key, value) # remove1 (ite, key, v) (m_list c)\<rparr>"
      using mem by blast
    show ?thesis
      using p c1 g Some sh by (intro exI [of _ ?c1]) simp
  qed
  then obtain c1 where
    pe: "push_entry key value c = Inr c1" and sh: "?shape c1"
    and c1: "consistent c1" and ne: "m_list c1 \<noteq> []"
    and f: "m_max_size c1 = m_max_size c" "m_max_memory_size c1 = m_max_memory_size c"
      "m_stats c1 = m_stats c"
    by blast
  have l1: "length (m_list c1) = get_cache_size c1"
    using consistent_length [OF c1] by (simp add: get_cache_size_def)
  have l0: "length (m_list c) = get_cache_size c"
    using consistent_length [OF c] by (simp add: get_cache_size_def)
  have ge: "get_cache_size c \<le> get_cache_size c1"
    using sh by (auto split: option.splits)
  let ?k = "fst (snd (last (m_list c1)))"
  let ?c2 = "c1\<lparr>m_hash_table := AList.delete ?k (m_hash_table c1), m_list := butlast (m_list c1)\<rparr>"
  note d = discard_one_elem_consistent [OF c1 ne]
  have p: "push sz key value c = (if over_budget sz c1 then Inr ?c2 else Inr c1)"
    using pe d(1) by (simp add: push_def over_budget_def)
  have nk: "\<not> exists_lru ?k ?c2"
    by (simp add: exists_lru_iff delete_notin_dom map_of_None_keys)
  have mem: "get_cache_size c1 * sz < SIZE_MOD \<longrightarrow> get_memory_size sz c1 = get_cache_size c1 * sz"
    by (simp add: get_memory_size_def)
  have ev: "if over_budget sz c1
            then \<exists>c2. push sz key value c = Inr c2 \<and>
                   c2 = ?c2 \<and>
                   m_list c2 = butlast (m_list c1) \<and>
                   set (m_hash_table c2) =
                     set (m_hash_table c1) - {(?k, fst (last (m_list c1)))} \<and>
                   get_cache_size c2 = get_cache_size c1 - 1 \<and>
                   length (m_list c2) = length (m_list c1) - 1 \<and>
                   \<not> exists_lru ?k c2 \<and>
                   m_max_size c2 = m_max_size c \<and>
                   m_max_memory_size c2 = m_max_memory_size c \<and>
                   m_stats c2 = m_stats c \<and> consistent c2 \<and>
                   get_cache_size c \<le> Suc (get_cache_size c2)
            else push sz key value c = Inr c1"
  proof (cases "over_budget sz c1")
    case True
    have "push sz key value c = Inr ?c2" using p True by simp
    moreover have "m_list ?c2 = butlast (m_list c1)" by simp
    moreover have "set (m_hash_table ?c2) =
        set (m_hash_table c1) - {(?k, fst (last (m_list c1)))}" using d(3) by simp
    moreover have g2: "get_cache_size ?c2 = get_cache_size c1 - 1"
      using d(4) by (simp add: get_cache_size_def)
    moreover have "length (m_list ?c2) = length (m_list c1) - 1" by simp
    moreover have "m_max_size ?c2 = m_max_size c" "m_max_memory_size ?c2 = m_max_memory_size c"
      "m_stats ?c2 = m_stats c" using f by simp_all
    moreover have "get_cache_size c \<le> Suc (get_cache_size ?c2)"
      using ge g2 by simp
    ultimately have "\<exists>c2. push sz key value c = Inr c2 \<and>
                   c2 = ?c2 \<and>
                   m_list c2 = butlast (m_list c1) \<and>
                   set (m_hash_table c2) =
                     set (m_hash_table c1) - {(?k, fst (last (m_list c1)))} \<and>
                   get_cache_size c2 = get_cache_size c1 - 1 \<and>
                   length (m_list c2) = length (m_list c1) - 1 \<and>
                   \<not> exists_lru ?k c2 \<and>
                   m_max_size c2 = m_max_size c \<and>
                   m_max_memory_size c2 = m_max_memory_size c \<and>
                   m_stats c2 = m_stats c \<and> consistent c2 \<and>
                   get_cache_size c \<le> Suc (get_cache_size c2)"
      using nk d(2) by (intro exI [of _ ?c2]) (simp only: simp_thms)
    then show ?thesis using True by (simp only: if_True)
  next
    case False
    then show ?thesis using p by simp
  qed
  show ?thesis
    using pe sh l1 l0 c1 ne ev mem
    by (intro exI [of _ c1]) (simp only: simp_thms)
qed

theorem push_evicts_exactly_the_tail_witness:
  "consistent \<lparr>m_list = [(3, 2, 12), (2, 1, 11), (1, 0 :: nat, 10 :: nat)],
      m_hash_table = [(0, 1), (1, 2), (2, 3)], m_max_size = 3, m_max_memory_size = 0,
      m_stats = \<lparr>m_get_cnt = 0, m_hit_cnt = 0\<rparr>\<rparr> \<and>
   (\<exists>c2. push 4 3 13 \<lparr>m_list = [(3, 2, 12), (2, 1, 11), (1, 0 :: nat, 10 :: nat)],
      m_hash_table = [(0, 1), (1, 2), (2, 3)], m_max_size = 3, m_max_memory_size = 0,
      m_stats = \<lparr>m_get_cnt = 0, m_hit_cnt = 0\<rparr>\<rparr> = Inr c2 \<and>
      m_list c2 = [(4, 3, 13), (3, 2, 12), (2, 1, 11)] \<and>
      set (m_hash_table c2) = {(1, 2), (2, 3), (3, 4)} \<and> \<not> exists_lru 0 c2) \<and>
   push 4 2 99 \<lparr>m_list = [(3, 2, 12), (2, 1, 11), (1, 0 :: nat, 10 :: nat)],
      m_hash_table = [(0, 1), (1, 2), (2, 3)], m_max_size = 3, m_max_memory_size = 0,
      m_stats = \<lparr>m_get_cnt = 0, m_hit_cnt = 0\<rparr>\<rparr> =
   Inr \<lparr>m_list = [(3, 2, 99), (2, 1, 11), (1, 0, 10)],
      m_hash_table = [(0, 1), (1, 2), (2, 3)], m_max_size = 3, m_max_memory_size = 0,
      m_stats = \<lparr>m_get_cnt = 0, m_hit_cnt = 0\<rparr>\<rparr>"
proof -
  let ?c = "\<lparr>m_list = [(3, 2, 12), (2, 1, 11), (1, 0 :: nat, 10 :: nat)],
      m_hash_table = [(0, 1), (1, 2), (2, 3)], m_max_size = 3, m_max_memory_size = 0,
      m_stats = \<lparr>m_get_cnt = 0, m_hit_cnt = 0\<rparr>\<rparr>"
  let ?a = "\<lparr>m_list = [(4, 3, 13), (3, 2, 12), (2, 1, 11), (1, 0 :: nat, 10 :: nat)],
      m_hash_table = [(0, 1), (1, 2), (2, 3), (3, 4)], m_max_size = 3, m_max_memory_size = 0,
      m_stats = \<lparr>m_get_cnt = 0, m_hit_cnt = 0\<rparr>\<rparr>"
  let ?b = "\<lparr>m_list = [(3, 2, 99), (2, 1, 11), (1, 0 :: nat, 10 :: nat)],
      m_hash_table = [(0, 1), (1, 2), (2, 3)], m_max_size = 3, m_max_memory_size = 0,
      m_stats = \<lparr>m_get_cnt = 0, m_hit_cnt = 0\<rparr>\<rparr>"
  have c: "consistent ?c" by (auto simp: lru_eval)
  have pa: "push_entry 3 13 ?c = Inr ?a" by (simp add: lru_eval)
  have oa: "over_budget 4 ?a" by (simp add: lru_eval)
  have pb: "push_entry 2 99 ?c = Inr ?b" by (simp add: lru_eval)
  have ob: "\<not> over_budget 4 ?b" by (simp add: lru_eval)
  have s: "{(0, 1), (1, 2), (2, 3), (3, 4)} - {(0, Suc 0)} = {(1, 2), (2, 3), (3, 4 :: nat)}"
    by auto
  from push_evicts_exactly_the_tail [OF c, of 3 13 4] pa oa
  have A: "\<exists>c2. push 4 3 13 ?c = Inr c2 \<and>
      m_list c2 = [(4, 3, 13), (3, 2, 12), (2, 1, 11)] \<and>
      set (m_hash_table c2) = {(1, 2), (2, 3), (3, 4)} \<and> \<not> exists_lru 0 c2"
    by (auto simp: s)
  from push_evicts_exactly_the_tail [OF c, of 2 99 4] pb ob
  have B: "push 4 2 99 ?c = Inr ?b" by auto
  show ?thesis using c A B by blast
qed

text \<open>
  Claim C5. On a cache whose list and index agree, \<^verbatim>\<open>get(key, value)\<close> adds one to
  \<^verbatim>\<open>m_get_cnt\<close> (in \<^verbatim>\<open>size_t\<close>). If the key is absent it returns \<open>False\<close>, leaves
  \<open>value\<close>, \<^verbatim>\<open>m_hit_cnt\<close>, the list and the index as they were, and fails in no way.
  If the key is present it also adds one to \<^verbatim>\<open>m_hit_cnt\<close>, moves the key's node to the
  front of the list, the order of the others kept, and returns \<open>True\<close> with the value
  handle stored in that node.
\<close>

theorem get_counts_and_promotes:
  assumes c: "consistent c"
  shows "(\<not> exists_lru key c \<longrightarrow>
            get key value c =
              Inr (False, value,
                   c\<lparr>m_stats := (m_stats c)\<lparr>m_get_cnt := (m_get_cnt (m_stats c) + 1) mod SIZE_MOD\<rparr>\<rparr>)) \<and>
         (exists_lru key c \<longrightarrow>
            (\<exists>it v. map_of (m_hash_table c) key = Some it \<and> (it, key, v) \<in> set (m_list c) \<and>
               get key value c =
                 Inr (True, v,
                      c\<lparr>m_list := (it, key, v) # remove1 (it, key, v) (m_list c),
                        m_stats := \<lparr>m_get_cnt = (m_get_cnt (m_stats c) + 1) mod SIZE_MOD,
                                    m_hit_cnt = (m_hit_cnt (m_stats c) + 1) mod SIZE_MOD\<rparr>\<rparr>)))"
proof (intro conjI impI)
  assume "\<not> exists_lru key c"
  then have "map_of (m_hash_table c) key = None" by (simp add: exists_lru_iff)
  then show "get key value c =
              Inr (False, value,
                   c\<lparr>m_stats := (m_stats c)\<lparr>m_get_cnt := (m_get_cnt (m_stats c) + 1) mod SIZE_MOD\<rparr>\<rparr>)"
    by (rule get_absent)
next
  assume "exists_lru key c"
  then obtain it where m: "map_of (m_hash_table c) key = Some it"
    by (auto simp: exists_lru_iff)
  from get_present [OF c m, of "value"] m
  show "\<exists>it v. map_of (m_hash_table c) key = Some it \<and> (it, key, v) \<in> set (m_list c) \<and>
               get key value c =
                 Inr (True, v,
                      c\<lparr>m_list := (it, key, v) # remove1 (it, key, v) (m_list c),
                        m_stats := \<lparr>m_get_cnt = (m_get_cnt (m_stats c) + 1) mod SIZE_MOD,
                                    m_hit_cnt = (m_hit_cnt (m_stats c) + 1) mod SIZE_MOD\<rparr>\<rparr>)"
    by blast
qed

theorem get_counts_and_promotes_witness:
  "consistent \<lparr>m_list = [(3, 2, 12), (2, 1, 11), (1, 0 :: nat, 10 :: nat)],
      m_hash_table = [(0, 1), (1, 2), (2, 3)], m_max_size = 3, m_max_memory_size = 0,
      m_stats = \<lparr>m_get_cnt = 5, m_hit_cnt = 2\<rparr>\<rparr> \<and>
   exists_lru 1 \<lparr>m_list = [(3, 2, 12), (2, 1, 11), (1, 0 :: nat, 10 :: nat)],
      m_hash_table = [(0, 1), (1, 2), (2, 3)], m_max_size = 3, m_max_memory_size = 0,
      m_stats = \<lparr>m_get_cnt = 5, m_hit_cnt = 2\<rparr>\<rparr> \<and>
   \<not> exists_lru 7 \<lparr>m_list = [(3, 2, 12), (2, 1, 11), (1, 0 :: nat, 10 :: nat)],
      m_hash_table = [(0, 1), (1, 2), (2, 3)], m_max_size = 3, m_max_memory_size = 0,
      m_stats = \<lparr>m_get_cnt = 5, m_hit_cnt = 2\<rparr>\<rparr> \<and>
   get 1 0 \<lparr>m_list = [(3, 2, 12), (2, 1, 11), (1, 0 :: nat, 10 :: nat)],
      m_hash_table = [(0, 1), (1, 2), (2, 3)], m_max_size = 3, m_max_memory_size = 0,
      m_stats = \<lparr>m_get_cnt = 5, m_hit_cnt = 2\<rparr>\<rparr> =
   Inr (True, 11, \<lparr>m_list = [(2, 1, 11), (3, 2, 12), (1, 0, 10)],
      m_hash_table = [(0, 1), (1, 2), (2, 3)], m_max_size = 3, m_max_memory_size = 0,
      m_stats = \<lparr>m_get_cnt = 6, m_hit_cnt = 3\<rparr>\<rparr>) \<and>
   get 7 0 \<lparr>m_list = [(3, 2, 12), (2, 1, 11), (1, 0 :: nat, 10 :: nat)],
      m_hash_table = [(0, 1), (1, 2), (2, 3)], m_max_size = 3, m_max_memory_size = 0,
      m_stats = \<lparr>m_get_cnt = 5, m_hit_cnt = 2\<rparr>\<rparr> =
   Inr (False, 0, \<lparr>m_list = [(3, 2, 12), (2, 1, 11), (1, 0, 10)],
      m_hash_table = [(0, 1), (1, 2), (2, 3)], m_max_size = 3, m_max_memory_size = 0,
      m_stats = \<lparr>m_get_cnt = 6, m_hit_cnt = 2\<rparr>\<rparr>)"
proof -
  let ?c = "\<lparr>m_list = [(3, 2, 12), (2, 1, 11), (1, 0 :: nat, 10 :: nat)],
      m_hash_table = [(0, 1), (1, 2), (2, 3)], m_max_size = 3, m_max_memory_size = 0,
      m_stats = \<lparr>m_get_cnt = 5, m_hit_cnt = 2\<rparr>\<rparr>"
  have c: "consistent ?c" by (auto simp: lru_eval)
  have e1: "exists_lru 1 ?c" by (simp add: lru_eval)
  have e7: "\<not> exists_lru 7 ?c" by (simp add: lru_eval)
  have m1: "map_of (m_hash_table ?c) 1 = Some 2" by simp
  from get_counts_and_promotes [OF c, of 1 0] get_counts_and_promotes [OF c, of 7 0]
  show ?thesis using c e1 e7 by (auto simp: SIZE_MOD_def)
qed

text \<open>
  Claim C6. Start from the cache built by either constructor and apply any sequence of
  \<^verbatim>\<open>push\<close>, \<^verbatim>\<open>get\<close>, \<^verbatim>\<open>exists\<close> and \<^verbatim>\<open>reset_stats\<close> calls. Every call returns,
  and in the state reached the index and the list agree: the index holds exactly the
  pairs (key, node) of the nodes of the list, no key twice in the index, no key and no
  node twice in the list; so the keys of the index are the keys of the list, and both
  hold the same number of entries. These are all the states of a cache: its copy
  constructor cannot be instantiated, so no state comes from a copy.
\<close>

theorem index_and_list_always_agree:
  "(\<exists>c. lru_run sz ops (LRU_cache_ctor N) = Inr c \<and> consistent c \<and>
         set (map fst (m_hash_table c)) = set (map (\<lambda>n. fst (snd n)) (m_list c)) \<and>
         length (m_hash_table c) = length (m_list c)) \<and>
   (\<exists>c. lru_run sz ops (LRU_cache_ctor2 N M) = Inr c \<and> consistent c \<and>
         set (map fst (m_hash_table c)) = set (map (\<lambda>n. fst (snd n)) (m_list c)) \<and>
         length (m_hash_table c) = length (m_list c))"
proof -
  have "\<exists>c. lru_run sz ops (LRU_cache_ctor2 N M') = Inr c \<and> consistent c \<and>
         set (map fst (m_hash_table c)) = set (map (\<lambda>n. fst (snd n)) (m_list c)) \<and>
         length (m_hash_table c) = length (m_list c)" for M'
  proof -
    from lru_run_bounded [OF ctor_consistent(1,2), of sz ops N M'] obtain c where
      r: "lru_run sz ops (LRU_cache_ctor2 N M') = Inr c" and c: "consistent c"
      by blast
    have "set (m_hash_table c) = set (entries (m_list c))" using c by (simp add: consistent_def)
    then have "fst ` set (m_hash_table c) = fst ` set (entries (m_list c))" by simp
    then have "set (map fst (m_hash_table c)) = set (map (\<lambda>n. fst (snd n)) (m_list c))"
      by (simp add: entries_def image_image)
    then show ?thesis using r c consistent_length [OF c] by blast
  qed
  then show ?thesis by (simp add: ctor_consistent(4))
qed

text \<open>
  Claim C10. Start from the cache built by either constructor with \<^verbatim>\<open>Size = N\<close> and
  apply any sequence of \<^verbatim>\<open>push\<close>, \<^verbatim>\<open>get\<close>, \<^verbatim>\<open>exists\<close> and \<^verbatim>\<open>reset_stats\<close> calls.
  Every call returns, and after the last one the index and the list hold at most \<open>N\<close>
  entries.
\<close>

theorem count_never_exceeds_max_count:
  "(\<exists>c. lru_run sz ops (LRU_cache_ctor N) = Inr c \<and>
         get_cache_size c \<le> N \<and> length (m_list c) \<le> N) \<and>
   (\<exists>c. lru_run sz ops (LRU_cache_ctor2 N M) = Inr c \<and>
         get_cache_size c \<le> N \<and> length (m_list c) \<le> N)"
proof -
  have "\<exists>c. lru_run sz ops (LRU_cache_ctor2 N M') = Inr c \<and>
         get_cache_size c \<le> N \<and> length (m_list c) \<le> N" for M'
  proof -
    from lru_run_bounded [OF ctor_consistent(1,2), of sz ops N M'] obtain c where
      r: "lru_run sz ops (LRU_cache_ctor2 N M') = Inr c" and c: "consistent c"
      and b: "get_cache_size c \<le> m_max_size c" and m: "m_max_size c = N"
      by (auto simp: ctor_consistent(3))
    have "length (m_list c) \<le> N"
      using consistent_length [OF c] b m by (simp add: get_cache_size_def)
    then show ?thesis using r b m by auto
  qed
  then show ?thesis by (simp add: ctor_consistent(4))
qed

end
